theory Spec2Isabelle
  imports Main "HOL-Library.Word" "HOL-Library.Multiset" "HOL-Library.Sublist"
begin

section \<open>The Linux EthernetServer of MySensors: a bounded pool of TCP connections\<close>

text \<open>
  The development embeds \<^verbatim>\<open>src/drivers/Linux/EthernetServer.cpp\<close>. The server owns two
  containers of socket descriptors: the vector \<^verbatim>\<open>clients\<close> (the Active Connection Set of the
  specification) and the list \<^verbatim>\<open>new_clients\<close> (the Pending-Accept Queue). Every method is
  modelled as a function that takes the state of the operating system and the server object
  and returns both, updated.
\<close>

subsection \<open>The socket layer\<close>

type_synonym fd = int
type_synonym byte = "8 word"
type_synonym IPAddress = "byte \<times> byte \<times> byte \<times> byte"

text \<open>
  One entry of the list that \<^verbatim>\<open>getaddrinfo\<close> returns, together with what the three system
  calls of the bind loop will answer for it: the value of \<^verbatim>\<open>socket()\<close>, and whether
  \<^verbatim>\<open>setsockopt()\<close> and \<^verbatim>\<open>bind()\<close> succeed.
\<close>

record addrinfo =
  ai_socket :: fd
  ai_setsockopt_ok :: bool
  ai_bind_ok :: bool

text \<open>
  The operating system as the server sees it during one call. The first three fields are
  what the methods of \<^verbatim>\<open>EthernetClient\<close> report for a descriptor; that class is declared in
  \<^verbatim>\<open>EthernetClient.h\<close>, which is not part of the sources at hand, so its answers are
  parameters of the model:
  \<^item> \<open>sock_connected\<close>: the answer of \<^verbatim>\<open>connected()\<close>;
  \<^item> \<open>sock_available\<close>: the answer of \<^verbatim>\<open>available()\<close>, the number of unread bytes;
  \<^item> \<open>sock_write\<close>: the number of bytes \<^verbatim>\<open>write(buffer, size)\<close> reports as written.

  \<open>backlog\<close> gives, for a listening descriptor, the results of the next successful
  \<^verbatim>\<open>accept()\<close> calls on it, oldest connection first; \<open>closed\<close> is the log of the
  descriptors handed to \<^verbatim>\<open>close()\<close>, in order. \<open>getaddrinfo_result\<close> and \<open>listen_ok\<close>
  are the answers of the two remaining system calls of \<^verbatim>\<open>begin\<close>.

  A single call of a server method runs against one such state: the answers do not change
  while the call runs, except through the call's own \<^verbatim>\<open>accept()\<close> and \<^verbatim>\<open>close()\<close>.
\<close>

record os =
  sock_connected :: "fd \<Rightarrow> bool"
  sock_available :: "fd \<Rightarrow> int"
  sock_write :: "fd \<Rightarrow> byte list \<Rightarrow> nat"
  backlog :: "fd \<Rightarrow> fd list"
  closed :: "fd list"
  getaddrinfo_result :: "IPAddress \<Rightarrow> 16 word \<Rightarrow> addrinfo list option"
  listen_ok :: "fd \<Rightarrow> bool"

text \<open>
  \<^verbatim>\<open>accept(sockfd, ...)\<close> on the non-blocking listening socket: \<open>-1\<close> when nothing is
  waiting, otherwise the descriptor of the oldest waiting connection, which leaves the
  backlog. (An entry \<open>-1\<close> in the backlog stands for a connection whose accept fails.)
\<close>

definition os_accept :: "os \<Rightarrow> fd \<Rightarrow> int \<times> os" where
  "os_accept os sock =
     (case backlog os sock of
        [] \<Rightarrow> (- 1, os)
      | new_fd # rest \<Rightarrow> (new_fd, os\<lparr>backlog := (backlog os)(sock := rest)\<rparr>))"

definition os_close :: "os \<Rightarrow> fd \<Rightarrow> os" where
  "os_close os sock = os\<lparr>closed := closed os @ [sock]\<rparr>"

subsection \<open>EthernetClient\<close>

text \<open>
  The two constructors the server uses: \<^verbatim>\<open>EthernetClient()\<close> and \<^verbatim>\<open>EthernetClient(sock)\<close>.
  Constructing or destroying a client object does not touch the descriptor.
\<close>

datatype EthernetClient = EthernetClient_none | EthernetClient_sock fd

text \<open>
  Modelled from the spec: the methods of \<^verbatim>\<open>EthernetClient\<close> are missing from the sources.
  A handle has two live-queried properties, connected and has-pending-input, re-evaluated
  from the operating system on each check; a default-constructed client is the explicit
  ``none'', neither connected nor readable.
\<close>

definition client_connected :: "os \<Rightarrow> EthernetClient \<Rightarrow> bool" where
  "client_connected os c =
     (case c of EthernetClient_none \<Rightarrow> False | EthernetClient_sock sock \<Rightarrow> sock_connected os sock)"

definition client_available :: "os \<Rightarrow> EthernetClient \<Rightarrow> int" where
  "client_available os c =
     (case c of EthernetClient_none \<Rightarrow> 0 | EthernetClient_sock sock \<Rightarrow> sock_available os sock)"

text \<open>
  Modelled from the spec: \<^verbatim>\<open>EthernetClient::write\<close> is missing from the sources. It returns
  the bytes actually written, as a \<^verbatim>\<open>size_t\<close>; the width of \<^verbatim>\<open>size_t\<close> is the type
  parameter \<open>'w\<close>.
\<close>

definition client_write :: "os \<Rightarrow> EthernetClient \<Rightarrow> byte list \<Rightarrow> 'w::len word" where
  "client_write os c buffer =
     (case c of EthernetClient_none \<Rightarrow> 0 | EthernetClient_sock sock \<Rightarrow> of_nat (sock_write os sock buffer))"

text \<open>
  Modelled from the spec: \<^verbatim>\<open>EthernetClient::stop\<close> is missing from the sources. Eviction of
  a dead handle closes its descriptor; the model records the \<^verbatim>\<open>close()\<close>.
\<close>

definition client_stop :: "os \<Rightarrow> EthernetClient \<Rightarrow> os" where
  "client_stop os c =
     (case c of EthernetClient_none \<Rightarrow> os | EthernetClient_sock sock \<Rightarrow> os_close os sock)"

subsection \<open>EthernetServer\<close>

record server =
  port :: "16 word"
  max_clients :: "16 word"
  sockfd :: fd
  clients :: "fd list"
  new_clients :: "fd list"

text \<open>
  The constructor stores the port and the capacity and reserves room in \<^verbatim>\<open>clients\<close>; both
  containers start empty. It does not initialise \<^verbatim>\<open>sockfd\<close>, whose indeterminate value is the
  third argument here.
\<close>

definition EthernetServer :: "16 word \<Rightarrow> 16 word \<Rightarrow> fd \<Rightarrow> server" where
  "EthernetServer p m sockfd0 =
     \<lparr>port = p, max_clients = m, sockfd = sockfd0, clients = [], new_clients = []\<rparr>"

subsubsection \<open>begin\<close>

text \<open>
  How a call of \<^verbatim>\<open>begin\<close> ends. The first four results are its early returns. On the path
  where \<^verbatim>\<open>bind\<close> and \<^verbatim>\<open>listen\<close> succeed, the source calls \<^verbatim>\<open>freeaddrinfo(servinfo)\<close> (line 97)
  and then reads \<^verbatim>\<open>p->ai_addr\<close> and \<^verbatim>\<open>p->ai_family\<close> (lines 101 to 103), where \<^verbatim>\<open>p\<close> points into
  the list just freed: from there on the behaviour of the call is undefined. The model ends
  that path with the result \<open>Reads_freed_addrinfo\<close>, together with the state reached before
  the read.
\<close>

datatype begin_result =
  Getaddrinfo_failed | Setsockopt_failed | Failed_to_bind | Listen_failed | Reads_freed_addrinfo

text \<open>
  The loop over the results of \<^verbatim>\<open>getaddrinfo\<close>: bind to the first entry that works. The
  result \<open>None\<close> is the early \<^verbatim>\<open>return\<close> after a failed \<^verbatim>\<open>setsockopt\<close>; otherwise the
  Boolean says whether the loop left with \<^verbatim>\<open>break\<close> (\<^verbatim>\<open>p != NULL\<close>).
\<close>

fun bind_first :: "addrinfo list \<Rightarrow> server \<Rightarrow> os \<Rightarrow> (bool option) \<times> server \<times> os" where
  "bind_first [] s os = (Some False, s, os)"
| "bind_first (p # ps) s os =
     (let s1 = s\<lparr>sockfd := ai_socket p\<rparr> in
      if ai_socket p = - 1 then bind_first ps s1 os
      else if \<not> ai_setsockopt_ok p then (None, s1, os)
      else if \<not> ai_bind_ok p then bind_first ps s1 (os_close os (sockfd s1))
      else (Some True, s1, os))"

definition begin_addr :: "IPAddress \<Rightarrow> os \<Rightarrow> server \<Rightarrow> begin_result \<times> server \<times> os" where
  "begin_addr address os s =
     (case getaddrinfo_result os address (port s) of
        None \<Rightarrow> (Getaddrinfo_failed, s, os)
      | Some servinfo \<Rightarrow>
          (case bind_first servinfo s os of
             (None, s1, os1) \<Rightarrow> (Setsockopt_failed, s1, os1)
           | (Some False, s1, os1) \<Rightarrow> (Failed_to_bind, s1, os1)
           | (Some True, s1, os1) \<Rightarrow>
               if \<not> listen_ok os1 (sockfd s1) then (Listen_failed, s1, os1)
               else (Reads_freed_addrinfo, s1, os1)))"

definition begin_any :: "os \<Rightarrow> server \<Rightarrow> begin_result \<times> server \<times> os" where
  "begin_any os s = begin_addr (0, 0, 0, 0) os s"

subsubsection \<open>The accept cycle\<close>

text \<open>
  The first reclamation scan of \<^verbatim>\<open>_accept\<close>, over the vector \<^verbatim>\<open>clients\<close> from index \<open>i\<close>:
  the first handle that is neither connected nor readable is overwritten with the last
  element, the vector loses its last element, and the scan stops. The result is the vector
  and the flag \<^verbatim>\<open>no_free_slots\<close>.
\<close>

function reclaim_clients :: "os \<Rightarrow> fd list \<Rightarrow> nat \<Rightarrow> fd list \<times> bool" where
  "reclaim_clients os cs i =
     (if i < length cs then
        (if client_connected os (EthernetClient_sock (cs ! i))
            \<or> client_available os (EthernetClient_sock (cs ! i)) \<noteq> 0
         then reclaim_clients os cs (i + 1)
         else (butlast (cs[i := last cs]), False))
      else (cs, True))"
  by pat_completeness auto
termination
  by (relation "measure (\<lambda>(os, cs, i). length cs - i)") auto

text \<open>
  The second scan, over the list \<^verbatim>\<open>new_clients\<close>: the first handle that is neither connected
  nor readable is erased, and the scan stops.
\<close>

fun reclaim_new_clients :: "os \<Rightarrow> fd list \<Rightarrow> fd list \<times> bool" where
  "reclaim_new_clients os [] = ([], True)"
| "reclaim_new_clients os (x # xs) =
     (if \<not> client_connected os (EthernetClient_sock x)
         \<and> client_available os (EthernetClient_sock x) = 0
      then (xs, False)
      else (case reclaim_new_clients os xs of (ys, no_free_slots) \<Rightarrow> (x # ys, no_free_slots)))"

text \<open>
  \<^verbatim>\<open>_accept\<close>. The two sizes are sizes of containers held in memory, so their sum does not
  wrap; the capacity is a \<^verbatim>\<open>uint16_t\<close>, promoted for the comparison.
\<close>

definition reclaim :: "os \<Rightarrow> server \<Rightarrow> server \<times> bool" where
  "reclaim os s =
     (if length (new_clients s) + length (clients s) = unat (max_clients s) then
        (case reclaim_clients os (clients s) 0 of
           (cs, no_free_slots) \<Rightarrow>
             if no_free_slots then
               (case reclaim_new_clients os (new_clients s) of
                  (ns, no_free_slots') \<Rightarrow> (s\<lparr>clients := cs, new_clients := ns\<rparr>, no_free_slots'))
             else (s\<lparr>clients := cs\<rparr>, False))
      else (s, False))"

definition EthernetServer_accept :: "os \<Rightarrow> server \<Rightarrow> server \<times> os" where
  "EthernetServer_accept os s =
     (case reclaim os s of
        (s1, no_free_slots) \<Rightarrow>
          if no_free_slots then (s1, os)
          else
            (case os_accept os (sockfd s1) of
               (new_fd, os1) \<Rightarrow>
                 if new_fd = - 1 then (s1, os1)
                 else (s1\<lparr>new_clients := new_clients s1 @ [new_fd],
                          clients := clients s1 @ [new_fd]\<rparr>, os1)))"

definition hasClient :: "os \<Rightarrow> server \<Rightarrow> bool \<times> server \<times> os" where
  "hasClient os s =
     (case EthernetServer_accept os s of (s1, os1) \<Rightarrow> (new_clients s1 \<noteq> [], s1, os1))"

definition available :: "server \<Rightarrow> EthernetClient \<times> server" where
  "available s =
     (if new_clients s = [] then (EthernetClient_none, s)
      else (EthernetClient_sock (hd (new_clients s)), s\<lparr>new_clients := tl (new_clients s)\<rparr>))"

subsubsection \<open>The broadcast writer\<close>

text \<open>
  The loop of \<^verbatim>\<open>write(buffer, size)\<close>, with its two locals \<open>n\<close> and \<open>i\<close>. The loop has three
  cases: a connected client is written to and \<open>i\<close> advances; a client that is neither
  connected nor readable is stopped and removed, the last element taking its place; in the
  remaining case the body does nothing. A loop that does not end has the value \<open>None\<close>.
\<close>

partial_function (option) write_loop ::
  "byte list \<Rightarrow> os \<Rightarrow> server \<Rightarrow> 'w::len word \<Rightarrow> nat \<Rightarrow> ('w word \<times> server \<times> os) option" where
  "write_loop buffer os s n i =
     (if i < length (clients s) then
        (if client_connected os (EthernetClient_sock (clients s ! i)) then
           write_loop buffer os s (n + client_write os (EthernetClient_sock (clients s ! i)) buffer) (i + 1)
         else if client_available os (EthernetClient_sock (clients s ! i)) = 0 then
           write_loop buffer (client_stop os (EthernetClient_sock (clients s ! i)))
             (s\<lparr>clients := butlast ((clients s)[i := last (clients s)])\<rparr>) n i
         else write_loop buffer os s n i)
      else Some (n, s, os))"

definition write_buffer :: "byte list \<Rightarrow> os \<Rightarrow> server \<Rightarrow> ('w::len word \<times> server \<times> os) option" where
  "write_buffer buffer os s = write_loop buffer os s 0 0"

definition write_byte :: "byte \<Rightarrow> os \<Rightarrow> server \<Rightarrow> ('w::len word \<times> server \<times> os) option" where
  "write_byte b os s = write_buffer [b] os s"

text \<open>
  \<^verbatim>\<open>write(const char *str)\<close>: the argument is \<open>None\<close> for the null pointer, otherwise the
  bytes the pointer points at; \<^verbatim>\<open>strlen\<close> counts up to the first zero byte.
\<close>

definition strlen :: "byte list \<Rightarrow> nat" where
  "strlen str = length (takeWhile (\<lambda>b. b \<noteq> 0) str)"

definition write_str ::
  "byte list option \<Rightarrow> os \<Rightarrow> server \<Rightarrow> ('w::len word \<times> server \<times> os) option" where
  "write_str str os s =
     (case str of
        None \<Rightarrow> Some (0, s, os)
      | Some bytes \<Rightarrow> write_buffer (take (strlen bytes) bytes) os s)"

definition write_chars :: "byte list \<Rightarrow> os \<Rightarrow> server \<Rightarrow> ('w::len word \<times> server \<times> os) option" where
  "write_chars buffer os s = write_buffer buffer os s"

declare reclaim_clients.simps [simp del]
declare write_loop.simps [code]

subsection \<open>Vocabulary of the specification\<close>

text \<open>
  A dead connection is disconnected and carries no unread input; a half-closed one is
  disconnected but still has unread input.
\<close>

definition dead :: "os \<Rightarrow> fd \<Rightarrow> bool" where
  "dead os x = (\<not> sock_connected os x \<and> sock_available os x = 0)"

definition half_closed :: "os \<Rightarrow> fd \<Rightarrow> bool" where
  "half_closed os x = (\<not> sock_connected os x \<and> sock_available os x \<noteq> 0)"

definition half_closed_from :: "os \<Rightarrow> server \<Rightarrow> nat \<Rightarrow> bool" where
  "half_closed_from os s i = (\<exists>k. i \<le> k \<and> k < length (clients s) \<and> half_closed os (clients s ! k))"

text \<open>What removal by swapping with the last element does to the part behind the removed slot.\<close>

definition move_last :: "'a list \<Rightarrow> 'a list" where
  "move_last xs = (if xs = [] then [] else last xs # butlast xs)"


subsection \<open>A concrete socket state\<close>

text \<open>
  Descriptor 4 is connected, descriptor 5 is half-closed with three unread bytes, every other
  descriptor is dead; the listening socket 3 has one connection waiting, which \<^verbatim>\<open>accept()\<close>
  will return as descriptor 7; a write accepts the whole buffer.
\<close>

definition example_os :: os where
  "example_os =
     \<lparr>sock_connected = (\<lambda>x. x = 4),
      sock_available = (\<lambda>x. if x = 5 then 3 else 0),
      sock_write = (\<lambda>x buffer. length buffer),
      backlog = (\<lambda>x. if x = 3 then [7] else []),
      closed = [],
      getaddrinfo_result = (\<lambda>address p. None),
      listen_ok = (\<lambda>x. True)\<rparr>"

definition example_server :: "fd list \<Rightarrow> fd list \<Rightarrow> 16 word \<Rightarrow> server" where
  "example_server cs ns m = (EthernetServer 5003 m 3)\<lparr>clients := cs, new_clients := ns\<rparr>"

definition quiet_os :: os where
  "quiet_os = example_os\<lparr>backlog := (\<lambda>x. [])\<rparr>"

subsection \<open>Sequences of calls\<close>

text \<open>
  The public methods of the server, as calls an embedding program can make, and what a call
  returns. \<open>step\<close> runs one call; a call that does not return has no successor state, and
  neither has a call of \<^verbatim>\<open>begin\<close> that reads the freed address list, whose behaviour is
  undefined.
\<close>

datatype call =
  Begin_any | Begin_addr IPAddress | HasClient | Available
  | Write_byte byte | Write_buffer "byte list" | Write_str "byte list option" | Write_chars "byte list"

datatype 'n retval = Ret_void | Ret_bool bool | Ret_client EthernetClient | Ret_size 'n

fun step :: "os \<Rightarrow> call \<Rightarrow> server \<Rightarrow> ('w::len word retval \<times> server \<times> os) option" where
  "step os Begin_any s =
     (case begin_any os s of
        (r, s1, os1) \<Rightarrow> if r = Reads_freed_addrinfo then None else Some (Ret_void, s1, os1))"
| "step os (Begin_addr address) s =
     (case begin_addr address os s of
        (r, s1, os1) \<Rightarrow> if r = Reads_freed_addrinfo then None else Some (Ret_void, s1, os1))"
| "step os HasClient s = (case hasClient os s of (b, s1, os1) \<Rightarrow> Some (Ret_bool b, s1, os1))"
| "step os Available s = (case available s of (c, s1) \<Rightarrow> Some (Ret_client c, s1, os))"
| "step os (Write_byte b) s =
     map_option (\<lambda>(n, s1, os1). (Ret_size n, s1, os1)) (write_byte b os s)"
| "step os (Write_buffer buffer) s =
     map_option (\<lambda>(n, s1, os1). (Ret_size n, s1, os1)) (write_buffer buffer os s)"
| "step os (Write_str str) s =
     map_option (\<lambda>(n, s1, os1). (Ret_size n, s1, os1)) (write_str str os s)"
| "step os (Write_chars buffer) s =
     map_option (\<lambda>(n, s1, os1). (Ret_size n, s1, os1)) (write_chars buffer os s)"

text \<open>
  A run of the server: every call comes with the state of the operating system it runs
  against, since peers connect, send and disconnect between the calls. The result is the
  list of returned values and the final server object.
\<close>

fun run :: "(call \<times> os) list \<Rightarrow> server \<Rightarrow> ('w::len word retval list \<times> server) option" where
  "run [] s = Some ([], s)"
| "run ((c, os) # tr) s =
     (case step os c s of
        None \<Rightarrow> None
      | Some (r, s1, os1) \<Rightarrow>
          (case run tr s1 of None \<Rightarrow> None | Some (rs, s2) \<Rightarrow> Some (r # rs, s2)))"

text \<open>The calls that examine the liveness of handles: \<^verbatim>\<open>hasClient\<close> and the writes.\<close>

fun scans :: "call \<Rightarrow> bool" where
  "scans Begin_any = False"
| "scans (Begin_addr address) = False"
| "scans HasClient = True"
| "scans Available = False"
| "scans (Write_byte b) = True"
| "scans (Write_buffer buffer) = True"
| "scans (Write_str str) = True"
| "scans (Write_chars buffer) = True"

section \<open>Properties\<close>

subsection \<open>Auxiliary facts\<close>

lemma mset_move_last: "mset (move_last xs) = mset xs"
proof (cases "xs = []")
  case True
  then show ?thesis by (simp add: move_last_def)
next
  case False
  then have e: "butlast xs @ [last xs] = xs" by simp
  have "mset (butlast xs @ [last xs]) = add_mset (last xs) (mset (butlast xs))" by simp
  then have "mset xs = add_mset (last xs) (mset (butlast xs))" by (simp only: e)
  then show ?thesis using False by (simp add: move_last_def)
qed

lemma set_move_last: "set (move_last xs) = set xs"
  using mset_move_last [of xs] by (metis set_mset_mset)

lemma length_move_last: "length (move_last xs) = length xs"
  using mset_move_last [of xs] by (metis size_mset)

lemma swap_remove: "butlast ((pre @ x # rest)[length pre := last (pre @ x # rest)]) = pre @ move_last rest"
  by (simp add: move_last_def butlast_append)

lemma sum_list_filter_perm:
  assumes "mset xs = mset ys"
  shows "(sum_list (map f (filter P xs)) :: nat) = sum_list (map f (filter P ys))"
proof -
  have "mset (filter P xs) = mset (filter P ys)"
    using assms by simp
  then have "mset (map f (filter P xs)) = mset (map f (filter P ys))"
    by (metis mset_map)
  then have "sum_mset (mset (map f (filter P xs))) = sum_mset (mset (map f (filter P ys)))"
    by (rule arg_cong)
  then show ?thesis by (simp only: sum_mset_sum_list)
qed

lemma write_loop_live_dead:
  assumes "clients s = pre @ suf"
    and "\<forall>x\<in>set suf. sock_connected os x \<or> sock_available os x = 0"
  shows "\<exists>suf' cl. write_loop buffer os s n (length pre) =
           Some (n + of_nat (sum_list (map (\<lambda>x. sock_write os x buffer) (filter (sock_connected os) suf))),
                 s\<lparr>clients := pre @ suf'\<rparr>, os\<lparr>closed := closed os @ cl\<rparr>)
         \<and> mset suf' = mset (filter (sock_connected os) suf)
         \<and> mset cl = mset (filter (\<lambda>x. \<not> sock_connected os x) suf)"
  using assms
proof (induction "length suf" arbitrary: s pre suf n os)
  case 0
  then have "suf = []" by simp
  with 0 show ?case by (subst write_loop.simps) simp
next
  case (Suc k)
  then obtain x rest where suf: "suf = x # rest" by (cases suf) auto
  with Suc have k: "k = length rest" by simp
  have cs: "clients s = pre @ x # rest" using Suc.prems suf by simp
  have at: "clients s ! length pre = x" "length pre < length (clients s)" using cs by simp_all
  show ?case
  proof (cases "sock_connected os x")
    case True
    have cs': "clients s = (pre @ [x]) @ rest" using cs by simp
    have live: "\<forall>y\<in>set rest. sock_connected os y \<or> sock_available os y = 0"
      using Suc.prems suf by simp
    have "\<exists>suf' cl. write_loop buffer os s (n + of_nat (sock_write os x buffer)) (length (pre @ [x])) =
              Some (n + of_nat (sock_write os x buffer)
                      + of_nat (sum_list (map (\<lambda>x. sock_write os x buffer) (filter (sock_connected os) rest))),
                    s\<lparr>clients := (pre @ [x]) @ suf'\<rparr>, os\<lparr>closed := closed os @ cl\<rparr>)
         \<and> mset suf' = mset (filter (sock_connected os) rest)
         \<and> mset cl = mset (filter (\<lambda>x. \<not> sock_connected os x) rest)"
      by (rule Suc.hyps(1) [OF k cs' live])
    then obtain suf' cl where
      run: "write_loop buffer os s (n + of_nat (sock_write os x buffer)) (length (pre @ [x])) =
              Some (n + of_nat (sock_write os x buffer)
                      + of_nat (sum_list (map (\<lambda>x. sock_write os x buffer) (filter (sock_connected os) rest))),
                    s\<lparr>clients := (pre @ [x]) @ suf'\<rparr>, os\<lparr>closed := closed os @ cl\<rparr>)"
      and m1: "mset suf' = mset (filter (sock_connected os) rest)"
      and m2: "mset cl = mset (filter (\<lambda>x. \<not> sock_connected os x) rest)"
      by blast
    have "write_loop buffer os s n (length pre) =
            write_loop buffer os s (n + of_nat (sock_write os x buffer)) (length (pre @ [x]))"
      using at True by (subst write_loop.simps) (simp add: client_connected_def client_write_def)
    with run m1 m2 True suf show ?thesis
      by (intro exI [of _ "x # suf'"] exI [of _ cl]) (simp add: add.assoc)
  next
    case False
    with Suc.prems suf have av: "sock_available os x = 0" by simp
    let ?os = "os\<lparr>closed := closed os @ [x]\<rparr>"
    let ?s = "s\<lparr>clients := pre @ move_last rest\<rparr>"
    have k': "k = length (move_last rest)" using k by (simp add: length_move_last)
    have cs': "clients ?s = pre @ move_last rest" by simp
    have live: "\<forall>y\<in>set (move_last rest). sock_connected ?os y \<or> sock_available ?os y = 0"
      using Suc.prems suf by (simp add: set_move_last)
    have "\<exists>suf' cl. write_loop buffer ?os ?s n (length pre) =
              Some (n + of_nat (sum_list (map (\<lambda>x. sock_write ?os x buffer) (filter (sock_connected ?os) (move_last rest)))),
                    ?s\<lparr>clients := pre @ suf'\<rparr>, ?os\<lparr>closed := closed ?os @ cl\<rparr>)
         \<and> mset suf' = mset (filter (sock_connected ?os) (move_last rest))
         \<and> mset cl = mset (filter (\<lambda>x. \<not> sock_connected ?os x) (move_last rest))"
      by (rule Suc.hyps(1) [OF k' cs' live])
    then obtain suf' cl where
      run: "write_loop buffer ?os ?s n (length pre) =
              Some (n + of_nat (sum_list (map (\<lambda>x. sock_write os x buffer) (filter (sock_connected os) (move_last rest)))),
                    s\<lparr>clients := pre @ suf'\<rparr>, os\<lparr>closed := closed os @ x # cl\<rparr>)"
      and m1: "mset suf' = mset (filter (sock_connected os) (move_last rest))"
      and m2: "mset cl = mset (filter (\<lambda>x. \<not> sock_connected os x) (move_last rest))"
      by auto
    have step: "write_loop buffer os s n (length pre) = write_loop buffer ?os ?s n (length pre)"
      using at False av swap_remove [of pre x rest] cs
      by (subst write_loop.simps)
         (simp add: client_connected_def client_available_def client_stop_def os_close_def)
    have s1: "sum_list (map (\<lambda>x. sock_write os x buffer) (filter (sock_connected os) (move_last rest)))
           = sum_list (map (\<lambda>x. sock_write os x buffer) (filter (sock_connected os) rest))"
      by (rule sum_list_filter_perm) (rule mset_move_last)
    have m1': "mset suf' = mset (filter (sock_connected os) rest)"
      using m1 mset_move_last [of rest] by (metis mset_filter)
    have m2': "mset cl = mset (filter (\<lambda>x. \<not> sock_connected os x) rest)"
      using m2 mset_move_last [of rest] by (metis mset_filter)
    from step run s1 m1' m2' False suf show ?thesis
      by (intro exI [of _ suf'] exI [of _ "x # cl"]) simp
  qed
qed

lemma dead_client:
  "(\<not> client_connected os (EthernetClient_sock x) \<and> client_available os (EthernetClient_sock x) = 0) = dead os x"
  "(client_connected os (EthernetClient_sock x) \<or> client_available os (EthernetClient_sock x) \<noteq> 0) = (\<not> dead os x)"
  by (auto simp add: client_connected_def client_available_def dead_def)

lemma reclaim_clients_split:
  "reclaim_clients os (pre @ suf) (length pre) =
     (case dropWhile (\<lambda>x. \<not> dead os x) suf of
        [] \<Rightarrow> (pre @ suf, True)
      | d # post \<Rightarrow> (pre @ takeWhile (\<lambda>x. \<not> dead os x) suf @ move_last post, False))"
proof (induction suf arbitrary: pre)
  case Nil
  show ?case by (subst reclaim_clients.simps) simp
next
  case (Cons x rest)
  show ?case
  proof (cases "dead os x")
    case True
    then show ?thesis
      using swap_remove [of pre x rest]
      by (subst reclaim_clients.simps) (simp add: dead_client)
  next
    case False
    have "reclaim_clients os (pre @ x # rest) (length pre) =
            reclaim_clients os ((pre @ [x]) @ rest) (length (pre @ [x]))"
      using False by (subst reclaim_clients.simps) (simp add: dead_client)
    also have "\<dots> = (case dropWhile (\<lambda>x. \<not> dead os x) rest of
        [] \<Rightarrow> ((pre @ [x]) @ rest, True)
      | d # post \<Rightarrow> ((pre @ [x]) @ takeWhile (\<lambda>x. \<not> dead os x) rest @ move_last post, False))"
      by (rule Cons.IH)
    finally show ?thesis using False
      by (cases "dropWhile (\<lambda>x. \<not> dead os x) rest")
         (simp_all del: dropWhile_eq_Nil_conv)
  qed
qed

lemma reclaim_new_clients_split:
  "reclaim_new_clients os ns =
     (case dropWhile (\<lambda>x. \<not> dead os x) ns of
        [] \<Rightarrow> (ns, True)
      | d # post \<Rightarrow> (takeWhile (\<lambda>x. \<not> dead os x) ns @ post, False))"
proof (induction ns)
  case Nil
  show ?case by simp
next
  case (Cons x ns)
  show ?case
  proof (cases "dead os x")
    case True
    then show ?thesis by (simp add: dead_client)
  next
    case False
    then show ?thesis
      by (cases "dropWhile (\<lambda>x. \<not> dead os x) ns")
         (simp_all add: Cons.IH dead_client del: dropWhile_eq_Nil_conv)
  qed
qed

lemma dropWhile_live_Nil: "(dropWhile (\<lambda>x. \<not> dead os x) xs = []) = (\<forall>x\<in>set xs. \<not> dead os x)"
  by (induction xs) auto

lemma reclaim_all_live:
  assumes "\<forall>x\<in>set (clients s) \<union> set (new_clients s). \<not> dead os x"
    and "length (new_clients s) + length (clients s) = unat (max_clients s)"
  shows "reclaim os s = (s, True)"
proof -
  have c: "dropWhile (\<lambda>x. \<not> dead os x) (clients s) = []"
    and n: "dropWhile (\<lambda>x. \<not> dead os x) (new_clients s) = []"
    using assms(1) by (simp_all add: dropWhile_live_Nil)
  have "reclaim_clients os ([] @ clients s) (length ([] :: fd list)) = (clients s, True)"
    by (subst reclaim_clients_split) (simp add: c)
  then have "reclaim_clients os (clients s) 0 = (clients s, True)" by simp
  moreover have "reclaim_new_clients os (new_clients s) = (new_clients s, True)"
    by (subst reclaim_new_clients_split) (simp add: n)
  ultimately show ?thesis using assms(2) by (simp add: reclaim_def)
qed

lemma half_closed_client:
  "half_closed os x \<Longrightarrow> \<not> client_connected os (EthernetClient_sock x)"
  "half_closed os x \<Longrightarrow> client_available os (EthernetClient_sock x) \<noteq> 0"
  by (simp_all add: half_closed_def client_connected_def client_available_def)

lemma half_closed_stop: "half_closed (client_stop os c) x = half_closed os x"
  by (cases c) (simp_all add: half_closed_def client_stop_def os_close_def)

lemma half_closed_from_swap_remove:
  assumes "half_closed_from os s i" and "i < length (clients s)"
    and "\<not> half_closed os (clients s ! i)"
  shows "half_closed_from os (s\<lparr>clients := butlast ((clients s)[i := last (clients s)])\<rparr>) i"
proof -
  let ?cs = "clients s"
  let ?cs' = "butlast (?cs[i := last ?cs])"
  from assms(1) obtain k where k: "i \<le> k" "k < length ?cs" "half_closed os (?cs ! k)"
    unfolding half_closed_from_def by blast
  have "k \<noteq> i" using assms(3) k(3) by blast
  with k(1) have ki: "i < k" by simp
  have ne: "?cs \<noteq> []" using k(2) by auto
  have len: "length ?cs' = length ?cs - 1" by simp
  have "\<exists>j. i \<le> j \<and> j < length ?cs' \<and> half_closed os (?cs' ! j)"
  proof (cases "k = length ?cs - 1")
    case True
    then have l: "last ?cs = ?cs ! k" using ne by (simp add: last_conv_nth)
    have i': "i < length ?cs'" using ki k(2) len by simp
    then have "?cs' ! i = (?cs[i := last ?cs]) ! i" by (rule nth_butlast)
    also have "\<dots> = last ?cs" using assms(2) by simp
    finally have "?cs' ! i = ?cs ! k" using l by simp
    with k(3) have "half_closed os (?cs' ! i)" by simp
    with i' show ?thesis by blast
  next
    case False
    then have k': "k < length ?cs'" using k(2) len by simp
    then have "?cs' ! k = (?cs[i := last ?cs]) ! k" by (rule nth_butlast)
    also have "\<dots> = ?cs ! k" using ki by simp
    finally have "half_closed os (?cs' ! k)" using k(3) by simp
    with k' k(1) show ?thesis by blast
  qed
  then show ?thesis unfolding half_closed_from_def by simp
qed

lemma half_closed_from_stop: "half_closed_from (client_stop os c) s i = half_closed_from os s i"
  by (simp add: half_closed_from_def half_closed_stop)

lemma write_loop_returns_no_half_closed:
  assumes "write_loop buffer os s n i = Some y"
  shows "\<not> half_closed_from os s i"
  using assms
proof (induct rule: write_loop.raw_induct [rotated 1, consumes 1, case_names step])
  case (step write_loop' buffer os s n i y)
  show ?case
  proof
    assume Q: "half_closed_from os s i"
    then obtain k where k: "i \<le> k" "k < length (clients s)" "half_closed os (clients s ! k)"
      by (auto simp add: half_closed_from_def)
    then have i: "i < length (clients s)" by simp
    let ?c = "EthernetClient_sock (clients s ! i)"
    show False
    proof (cases "client_connected os ?c")
      case True
      with step(2) i have "write_loop' buffer os s (n + client_write os ?c buffer) (i + 1) = Some y"
        by simp
      then have "\<not> half_closed_from os s (i + 1)" by (rule step(1))
      moreover have "k \<noteq> i" using True k(3) half_closed_client(1) by blast
      with k(1) have "i + 1 \<le> k" by simp
      with k(2,3) have "half_closed_from os s (i + 1)"
        unfolding half_closed_from_def by blast
      ultimately show False by simp
    next
      case False
      show False
      proof (cases "client_available os ?c = 0")
        case True
        with step(2) i False have "write_loop' buffer (client_stop os ?c)
            (s\<lparr>clients := butlast ((clients s)[i := last (clients s)])\<rparr>) n i = Some y"
          by simp
        then have "\<not> half_closed_from (client_stop os ?c)
            (s\<lparr>clients := butlast ((clients s)[i := last (clients s)])\<rparr>) i"
          by (rule step(1))
        moreover have "\<not> half_closed os (clients s ! i)"
          using True half_closed_client(2) by auto
        ultimately show False
          using half_closed_from_swap_remove [OF Q i]
          by (simp add: half_closed_from_stop)
      next
        case avail: False
        with step(2) i False have "write_loop' buffer os s n i = Some y" by simp
        then have "\<not> half_closed_from os s i" by (rule step(1))
        with Q show False by simp
      qed
    qed
  qed
qed

lemma of_nat_sum_list_word:
  "(of_nat (sum_list (map f xs)) :: 'w::len word) = sum_list (map (\<lambda>x. of_nat (f x)) xs)"
  by (induction xs) simp_all

lemma client_write_sock:
  "client_write os (EthernetClient_sock x) buffer = of_nat (sock_write os x buffer)"
  by (simp add: client_write_def)

lemmas example_defs =
  example_os_def example_server_def EthernetServer_def client_connected_def
  client_available_def client_write_def client_stop_def os_close_def os_accept_def

lemma dropWhile_dead_Cons:
  assumes "dropWhile (\<lambda>x. \<not> dead os x) xs = d # post"
  shows "dead os d" and "xs = takeWhile (\<lambda>x. \<not> dead os x) xs @ d # post"
    and "d \<in> set xs" and "d \<notin> set (takeWhile (\<lambda>x. \<not> dead os x) xs)"
proof -
  show d: "dead os d" using assms hd_dropWhile [of "\<lambda>x. \<not> dead os x" xs] by auto
  show split: "xs = takeWhile (\<lambda>x. \<not> dead os x) xs @ d # post"
    using assms takeWhile_dropWhile_id [of "\<lambda>x. \<not> dead os x" xs] by simp
  have "d \<in> set (dropWhile (\<lambda>x. \<not> dead os x) xs)" using assms by simp
  then show "d \<in> set xs" by (rule set_dropWhileD)
  show "d \<notin> set (takeWhile (\<lambda>x. \<not> dead os x) xs)"
    using d set_takeWhileD by fastforce
qed

text \<open>What the reclamation of \<^verbatim>\<open>_accept\<close> does, by cases.\<close>

lemma reclaim_below_capacity:
  "length (new_clients s) + length (clients s) \<noteq> unat (max_clients s) \<Longrightarrow> reclaim os s = (s, False)"
  by (simp add: reclaim_def)

lemma reclaim_clients_0:
  "reclaim_clients os cs 0 =
     (case dropWhile (\<lambda>x. \<not> dead os x) cs of
        [] \<Rightarrow> (cs, True)
      | d # post \<Rightarrow> (takeWhile (\<lambda>x. \<not> dead os x) cs @ move_last post, False))"
  using reclaim_clients_split [of os "[]" cs] by (simp cong: list.case_cong)

lemma reclaim_dead_client:
  assumes "length (new_clients s) + length (clients s) = unat (max_clients s)"
    and "dropWhile (\<lambda>x. \<not> dead os x) (clients s) = d # post"
  shows "reclaim os s =
    (s\<lparr>clients := takeWhile (\<lambda>x. \<not> dead os x) (clients s) @ move_last post\<rparr>, False)"
  using assms by (simp add: reclaim_def reclaim_clients_0)

lemma reclaim_dead_new_client:
  assumes "length (new_clients s) + length (clients s) = unat (max_clients s)"
    and "dropWhile (\<lambda>x. \<not> dead os x) (clients s) = []"
    and "dropWhile (\<lambda>x. \<not> dead os x) (new_clients s) = d # post"
  shows "reclaim os s =
    (s\<lparr>new_clients := takeWhile (\<lambda>x. \<not> dead os x) (new_clients s) @ post\<rparr>, False)"
  using assms
  by (simp add: reclaim_def reclaim_clients_0 reclaim_new_clients_split del: dropWhile_eq_Nil_conv)

lemma reclaim_none_dead:
  assumes "length (new_clients s) + length (clients s) = unat (max_clients s)"
    and "dropWhile (\<lambda>x. \<not> dead os x) (clients s) = []"
    and "dropWhile (\<lambda>x. \<not> dead os x) (new_clients s) = []"
  shows "reclaim os s = (s, True)"
  using assms
  by (simp add: reclaim_def reclaim_clients_0 reclaim_new_clients_split del: dropWhile_eq_Nil_conv)

lemma mset_swap_removed:
  assumes "xs = pre @ d # post"
  shows "mset (pre @ move_last post) = mset xs - {#d#}"
  using assms by (simp add: mset_move_last)

text \<open>Every outcome of the reclamation: the flag, and what is left of the two containers.\<close>

lemma reclaim_outcome:
  "\<exists>cs ns b. reclaim os s = (s\<lparr>clients := cs, new_clients := ns\<rparr>, b)
     \<and> mset cs \<subseteq># mset (clients s) \<and> subseq ns (new_clients s)
     \<and> (\<forall>x\<in>set (clients s). x \<in> set cs \<or> dead os x)
     \<and> (b \<longrightarrow> cs = clients s \<and> ns = new_clients s)"
proof (cases "length (new_clients s) + length (clients s) = unat (max_clients s)")
  case False
  then have "reclaim os s = (s\<lparr>clients := clients s, new_clients := new_clients s\<rparr>, False)"
    by (simp add: reclaim_below_capacity)
  then show ?thesis by (intro exI [of _ "clients s"] exI [of _ "new_clients s"] exI [of _ False]) simp
next
  case cap: True
  show ?thesis
  proof (cases "dropWhile (\<lambda>x. \<not> dead os x) (clients s)")
    case (Cons d post)
    let ?cs = "takeWhile (\<lambda>x. \<not> dead os x) (clients s) @ move_last post"
    note d = dropWhile_dead_Cons [OF Cons]
    have "reclaim os s = (s\<lparr>clients := ?cs, new_clients := new_clients s\<rparr>, False)"
      using reclaim_dead_client [OF cap Cons] by simp
    moreover have m: "mset ?cs = mset (clients s) - {#d#}"
      by (rule mset_swap_removed) (rule d(2))
    then have "mset ?cs \<subseteq># mset (clients s)" by simp
    moreover have "\<forall>x\<in>set (clients s). x \<in> set ?cs \<or> dead os x"
    proof
      fix x assume "x \<in> set (clients s)"
      then have "x \<in> set (takeWhile (\<lambda>x. \<not> dead os x) (clients s) @ d # post)"
        using d(2) by simp
      then show "x \<in> set ?cs \<or> dead os x" using d(1) by (auto simp add: set_move_last)
    qed
    ultimately show ?thesis
      by (intro exI [of _ ?cs] exI [of _ "new_clients s"] exI [of _ False]) simp
  next
    case Nil
    show ?thesis
    proof (cases "dropWhile (\<lambda>x. \<not> dead os x) (new_clients s)")
      case (Cons d post)
      let ?ns = "takeWhile (\<lambda>x. \<not> dead os x) (new_clients s) @ post"
      note d = dropWhile_dead_Cons [OF Cons]
      have "reclaim os s = (s\<lparr>clients := clients s, new_clients := ?ns\<rparr>, False)"
        using reclaim_dead_new_client [OF cap Nil Cons] by simp
      moreover have "subseq post (d # post)"
        by (rule list_emb_Cons) (rule subseq_order.order_refl)
      then have "subseq ?ns (takeWhile (\<lambda>x. \<not> dead os x) (new_clients s) @ d # post)"
        by (intro list_emb_append_mono subseq_order.order_refl)
      then have "subseq ?ns (new_clients s)" using d(2) by simp
      ultimately show ?thesis
        by (intro exI [of _ "clients s"] exI [of _ ?ns] exI [of _ False]) simp
    next
      case Nil2: Nil
      have "reclaim os s = (s\<lparr>clients := clients s, new_clients := new_clients s\<rparr>, True)"
        using reclaim_none_dead [OF cap Nil Nil2] by simp
      then show ?thesis
        by (intro exI [of _ "clients s"] exI [of _ "new_clients s"] exI [of _ True]) simp
    qed
  qed
qed

lemma mset_le_add_mset: "A \<subseteq># B \<Longrightarrow> A \<subseteq># add_mset y B"
  by (simp add: subseteq_mset_def le_SucI)

lemma subseq_mset_le: "subseq xs ys \<Longrightarrow> mset xs \<subseteq># mset ys"
proof (induction rule: list_emb.induct)
  case (list_emb_Nil ys)
  show ?case by simp
next
  case (list_emb_Cons xs ys y)
  then show ?case by (simp add: mset_le_add_mset)
next
  case (list_emb_Cons2 x y xs ys)
  then show ?case by simp
qed

lemma accept_outcome:
  "\<exists>cs ns. mset cs \<subseteq># mset (clients s) \<and> subseq ns (new_clients s)
      \<and> (\<forall>x\<in>set (clients s). x \<in> set cs \<or> dead os x)
      \<and> (EthernetServer_accept os s = (s\<lparr>clients := cs, new_clients := ns\<rparr>, os)
          \<or> (\<exists>rest. backlog os (sockfd s) = (- 1) # rest
                \<and> EthernetServer_accept os s =
                    (s\<lparr>clients := cs, new_clients := ns\<rparr>,
                     os\<lparr>backlog := (backlog os)(sockfd s := rest)\<rparr>))
          \<or> (\<exists>new_fd rest. backlog os (sockfd s) = new_fd # rest \<and> new_fd \<noteq> - 1
                \<and> EthernetServer_accept os s =
                    (s\<lparr>clients := cs @ [new_fd], new_clients := ns @ [new_fd]\<rparr>,
                     os\<lparr>backlog := (backlog os)(sockfd s := rest)\<rparr>)))"
proof -
  from reclaim_outcome [of os s] obtain cs ns b where
    r: "reclaim os s = (s\<lparr>clients := cs, new_clients := ns\<rparr>, b)"
    and cs: "mset cs \<subseteq># mset (clients s)" and ns: "subseq ns (new_clients s)"
    and kept: "\<forall>x\<in>set (clients s). x \<in> set cs \<or> dead os x"
    by blast
  have "EthernetServer_accept os s = (s\<lparr>clients := cs, new_clients := ns\<rparr>, os)
      \<or> (\<exists>rest. backlog os (sockfd s) = (- 1) # rest
            \<and> EthernetServer_accept os s =
                (s\<lparr>clients := cs, new_clients := ns\<rparr>,
                 os\<lparr>backlog := (backlog os)(sockfd s := rest)\<rparr>))
      \<or> (\<exists>new_fd rest. backlog os (sockfd s) = new_fd # rest \<and> new_fd \<noteq> - 1
            \<and> EthernetServer_accept os s =
                (s\<lparr>clients := cs @ [new_fd], new_clients := ns @ [new_fd]\<rparr>,
                 os\<lparr>backlog := (backlog os)(sockfd s := rest)\<rparr>))"
  proof (cases b)
    case True
    with r show ?thesis by (simp add: EthernetServer_accept_def)
  next
    case False
    show ?thesis
    proof (cases "backlog os (sockfd s)")
      case Nil
      with r False show ?thesis by (simp add: EthernetServer_accept_def os_accept_def)
    next
      case (Cons new_fd rest)
      with r False show ?thesis
        by (cases "new_fd = - 1") (simp_all add: EthernetServer_accept_def os_accept_def)
    qed
  qed
  with cs ns kept show ?thesis by blast
qed


lemma bind_first_containers:
  "bind_first ps s os = (r, s1, os1) \<Longrightarrow> clients s1 = clients s \<and> new_clients s1 = new_clients s"
proof (induction ps arbitrary: s os)
  case Nil
  then show ?case by auto
next
  case (Cons p ps)
  show ?case
  proof (cases "ai_socket p = - 1")
    case True
    with Cons.prems have "bind_first ps (s\<lparr>sockfd := ai_socket p\<rparr>) os = (r, s1, os1)"
      by (simp add: Let_def)
    from Cons.IH [OF this] show ?thesis by simp
  next
    case False
    show ?thesis
    proof (cases "ai_setsockopt_ok p")
      case no: False
      with Cons.prems False show ?thesis by (auto simp add: Let_def)
    next
      case ok: True
      show ?thesis
      proof (cases "ai_bind_ok p")
        case True
        with Cons.prems False ok show ?thesis by (auto simp add: Let_def)
      next
        case nb: False
        with Cons.prems False ok have
          "bind_first ps (s\<lparr>sockfd := ai_socket p\<rparr>) (os_close os (ai_socket p)) = (r, s1, os1)"
          by (simp add: Let_def)
        from Cons.IH [OF this] show ?thesis by simp
      qed
    qed
  qed
qed

lemma begin_addr_containers:
  assumes "begin_addr address os s = (r, s1, os1)"
  shows "clients s1 = clients s \<and> new_clients s1 = new_clients s"
proof (cases "getaddrinfo_result os address (port s)")
  case None
  with assms show ?thesis by (simp add: begin_addr_def)
next
  case (Some servinfo)
  obtain b s2 os2 where bf: "bind_first servinfo s os = (b, s2, os2)"
    by (cases "bind_first servinfo s os") auto
  with assms Some have "s1 = s2"
    by (auto simp add: begin_addr_def split: option.splits bool.splits if_splits)
  with bind_first_containers [OF bf] show ?thesis by simp
qed

lemma write_buffer_returns:
  assumes "write_buffer buffer os s = Some (n :: 'a::len word, s1, os1)"
  shows "new_clients s1 = new_clients s \<and> (\<forall>x\<in>set (clients s). x \<in> set (clients s1) \<or> dead os x)"
proof -
  have nh: "\<not> half_closed_from os s 0"
    using assms unfolding write_buffer_def by (rule write_loop_returns_no_half_closed)
  have live: "\<forall>x\<in>set (clients s). sock_connected os x \<or> sock_available os x = 0"
  proof
    fix x assume "x \<in> set (clients s)"
    then obtain k where "k < length (clients s)" "clients s ! k = x"
      by (metis in_set_conv_nth)
    with nh have "\<not> half_closed os x" unfolding half_closed_from_def by blast
    then show "sock_connected os x \<or> sock_available os x = 0"
      by (simp add: half_closed_def)
  qed
  have cs: "clients s = [] @ clients s" by simp
  have "\<exists>suf' cl. write_loop buffer os s (0 :: 'a word) (length ([] :: fd list)) =
           Some (0 + of_nat (sum_list (map (\<lambda>x. sock_write os x buffer) (filter (sock_connected os) (clients s)))),
                 s\<lparr>clients := [] @ suf'\<rparr>, os\<lparr>closed := closed os @ cl\<rparr>)
         \<and> mset suf' = mset (filter (sock_connected os) (clients s))
         \<and> mset cl = mset (filter (\<lambda>x. \<not> sock_connected os x) (clients s))"
    by (rule write_loop_live_dead [OF cs live])
  then obtain kept where s1: "s1 = s\<lparr>clients := kept\<rparr>"
    and kept: "mset kept = mset (filter (sock_connected os) (clients s))"
    using assms by (auto simp add: write_buffer_def)
  from kept have "set kept = set (filter (sock_connected os) (clients s))"
    by (rule mset_eq_setD)
  with s1 live show ?thesis by (auto simp add: dead_def)
qed

lemma accept_containers:
  assumes "EthernetServer_accept os s = (s1, os1)"
  shows "(\<forall>x\<in>set (clients s). x \<in> set (clients s1) \<or> dead os x)
       \<and> (\<forall>x\<in>set (new_clients s1). x \<in> set (new_clients s) \<or> x \<in> set (clients s1))"
proof -
  from accept_outcome [of s os] obtain cs ns where
    ns: "subseq ns (new_clients s)"
    and kept: "\<forall>x\<in>set (clients s). x \<in> set cs \<or> dead os x"
    and out: "EthernetServer_accept os s = (s\<lparr>clients := cs, new_clients := ns\<rparr>, os)
      \<or> (\<exists>rest. backlog os (sockfd s) = (- 1) # rest
            \<and> EthernetServer_accept os s =
                (s\<lparr>clients := cs, new_clients := ns\<rparr>,
                 os\<lparr>backlog := (backlog os)(sockfd s := rest)\<rparr>))
      \<or> (\<exists>new_fd rest. backlog os (sockfd s) = new_fd # rest \<and> new_fd \<noteq> - 1
            \<and> EthernetServer_accept os s =
                (s\<lparr>clients := cs @ [new_fd], new_clients := ns @ [new_fd]\<rparr>,
                 os\<lparr>backlog := (backlog os)(sockfd s := rest)\<rparr>))"
    by blast
  have "mset ns \<subseteq># mset (new_clients s)" using ns by (rule subseq_mset_le)
  then have sub: "set ns \<subseteq> set (new_clients s)" by (metis set_mset_mono set_mset_mset)
  from out assms have "(clients s1 = cs \<and> new_clients s1 = ns)
      \<or> (\<exists>new_fd. clients s1 = cs @ [new_fd] \<and> new_clients s1 = ns @ [new_fd])"
    by auto
  then show ?thesis
  proof
    assume "clients s1 = cs \<and> new_clients s1 = ns"
    with kept sub show ?thesis by auto
  next
    assume "\<exists>new_fd. clients s1 = cs @ [new_fd] \<and> new_clients s1 = ns @ [new_fd]"
    then obtain new_fd where "clients s1 = cs @ [new_fd]" "new_clients s1 = ns @ [new_fd]"
      by blast
    with kept sub show ?thesis by auto
  qed
qed

lemma step_containers:
  assumes "step os c s = Some (r :: 'w::len word retval, s1, os1)"
  shows "(\<forall>x\<in>set (clients s). x \<in> set (clients s1) \<or> (scans c \<and> dead os x))
       \<and> (\<forall>x\<in>set (new_clients s1). x \<in> set (new_clients s) \<or> x \<in> set (clients s1))"
proof (cases c)
  case Begin_any
  then obtain b where "begin_addr (0, 0, 0, 0) os s = (b, s1, os1)"
    using assms by (auto simp add: begin_any_def split: prod.splits if_splits)
  from begin_addr_containers [OF this] show ?thesis by simp
next
  case (Begin_addr address)
  then obtain b where "begin_addr address os s = (b, s1, os1)"
    using assms by (auto split: prod.splits if_splits)
  from begin_addr_containers [OF this] show ?thesis by simp
next
  case HasClient
  then have "EthernetServer_accept os s = (s1, os1)"
    using assms by (auto simp add: hasClient_def split: prod.splits)
  from accept_containers [OF this] show ?thesis using HasClient by simp
next
  case Available
  then have "s1 = snd (available s)" using assms by (auto split: prod.splits)
  then have "clients s1 = clients s" "set (new_clients s1) \<subseteq> set (new_clients s)"
    by (auto simp add: available_def dest: list.set_sel(2))
  then show ?thesis by auto
next
  case (Write_byte b)
  then obtain n :: "'w word" where "write_buffer [b] os s = Some (n, s1, os1)"
    using assms by (auto simp add: write_byte_def)
  from write_buffer_returns [OF this] show ?thesis using Write_byte by simp
next
  case (Write_buffer buffer)
  then obtain n :: "'w word" where "write_buffer buffer os s = Some (n, s1, os1)"
    using assms by auto
  from write_buffer_returns [OF this] show ?thesis using Write_buffer by simp
next
  case (Write_str str)
  show ?thesis
  proof (cases str)
    case None
    with Write_str assms have "s1 = s" by (simp add: write_str_def)
    then show ?thesis by simp
  next
    case (Some bytes)
    with Write_str obtain n :: "'w word" where
      "write_buffer (take (strlen bytes) bytes) os s = Some (n, s1, os1)"
      using assms by (auto simp add: write_str_def)
    from write_buffer_returns [OF this] show ?thesis using Write_str by simp
  qed
next
  case (Write_chars buffer)
  then obtain n :: "'w word" where "write_buffer buffer os s = Some (n, s1, os1)"
    using assms by (auto simp add: write_chars_def)
  from write_buffer_returns [OF this] show ?thesis using Write_chars by simp
qed

lemmas run_defs =
  hasClient_def EthernetServer_accept_def reclaim_def reclaim_clients.simps available_def
  write_buffer_def write_loop.simps

lemma accept_of_reclaim:
  assumes "reclaim os s = (s1, b)" and "sockfd s1 = sockfd s"
  shows "EthernetServer_accept os s =
     (if b then (s1, os)
      else case backlog os (sockfd s) of
             [] \<Rightarrow> (s1, os)
           | new_fd # rest \<Rightarrow>
               (if new_fd = - 1 then s1
                else s1\<lparr>new_clients := new_clients s1 @ [new_fd], clients := clients s1 @ [new_fd]\<rparr>,
                os\<lparr>backlog := (backlog os)(sockfd s := rest)\<rparr>))"
  using assms
  by (cases "backlog os (sockfd s)") (simp_all add: EthernetServer_accept_def os_accept_def)

text \<open>The state the reclamation leaves, by the four cases of the capacity test and the scans.\<close>

lemma reclaim_exact:
  "\<exists>cs ns.
     (if length (clients s) + length (new_clients s) \<noteq> unat (max_clients s)
      then cs = clients s \<and> ns = new_clients s \<and> reclaim os s = (s, False)
      else if \<exists>x\<in>set (clients s). dead os x
      then ns = new_clients s \<and> (\<exists>d\<in>set (clients s). dead os d \<and> mset cs = mset (clients s) - {#d#})
           \<and> reclaim os s = (s\<lparr>clients := cs\<rparr>, False)
      else if \<exists>x\<in>set (new_clients s). dead os x
      then cs = clients s \<and> (\<exists>d\<in>set (new_clients s). dead os d \<and> ns = remove1 d (new_clients s))
           \<and> reclaim os s = (s\<lparr>new_clients := ns\<rparr>, False)
      else cs = clients s \<and> ns = new_clients s \<and> reclaim os s = (s, True))"
proof (cases "length (clients s) + length (new_clients s) \<noteq> unat (max_clients s)")
  case True
  then have "reclaim os s = (s, False)" by (intro reclaim_below_capacity) simp
  with True show ?thesis by simp
next
  case False
  then have cap: "length (new_clients s) + length (clients s) = unat (max_clients s)" by simp
  show ?thesis
  proof (cases "dropWhile (\<lambda>x. \<not> dead os x) (clients s)")
    case (Cons d post)
    let ?cs = "takeWhile (\<lambda>x. \<not> dead os x) (clients s) @ move_last post"
    note d = dropWhile_dead_Cons [OF Cons]
    have "reclaim os s = (s\<lparr>clients := ?cs\<rparr>, False)"
      by (rule reclaim_dead_client [OF cap Cons])
    moreover have "mset ?cs = mset (clients s) - {#d#}"
      by (rule mset_swap_removed) (rule d(2))
    moreover have "\<exists>x\<in>set (clients s). dead os x" using d(1,3) by blast
    ultimately show ?thesis using False d(1,3)
      by (intro exI [of _ ?cs] exI [of _ "new_clients s"]) auto
  next
    case Nil
    then have none: "\<not> (\<exists>x\<in>set (clients s). dead os x)"
      by (simp add: dropWhile_live_Nil)
    show ?thesis
    proof (cases "dropWhile (\<lambda>x. \<not> dead os x) (new_clients s)")
      case (Cons d post)
      let ?ns = "takeWhile (\<lambda>x. \<not> dead os x) (new_clients s) @ post"
      note d = dropWhile_dead_Cons [OF Cons]
      have "reclaim os s = (s\<lparr>new_clients := ?ns\<rparr>, False)"
        by (rule reclaim_dead_new_client [OF cap Nil Cons])
      moreover have "remove1 d (takeWhile (\<lambda>x. \<not> dead os x) (new_clients s) @ d # post) = ?ns"
        using d(4) by (simp add: remove1_append)
      then have "?ns = remove1 d (new_clients s)" using d(2) by simp
      moreover have "\<exists>x\<in>set (new_clients s). dead os x" using d(1,3) by blast
      ultimately show ?thesis using False none d(1,3)
        by (intro exI [of _ "clients s"] exI [of _ ?ns]) auto
    next
      case Nil2: Nil
      then have none2: "\<not> (\<exists>x\<in>set (new_clients s). dead os x)"
        by (simp add: dropWhile_live_Nil)
      have "reclaim os s = (s, True)" by (rule reclaim_none_dead [OF cap Nil Nil2])
      with False none none2 show ?thesis by simp
    qed
  qed
qed

lemma accept_exact:
  "\<exists>cs ns.
     (if length (clients s) + length (new_clients s) \<noteq> unat (max_clients s)
      then cs = clients s \<and> ns = new_clients s
      else if \<exists>x\<in>set (clients s). dead os x
      then ns = new_clients s \<and> (\<exists>d\<in>set (clients s). dead os d \<and> mset cs = mset (clients s) - {#d#})
      else if \<exists>x\<in>set (new_clients s). dead os x
      then cs = clients s \<and> (\<exists>d\<in>set (new_clients s). dead os d \<and> ns = remove1 d (new_clients s))
      else cs = clients s \<and> ns = new_clients s)
   \<and> EthernetServer_accept os s =
       (if length (clients s) + length (new_clients s) = unat (max_clients s)
           \<and> \<not> (\<exists>x\<in>set (clients s). dead os x) \<and> \<not> (\<exists>x\<in>set (new_clients s). dead os x)
        then (s, os)
        else case backlog os (sockfd s) of
               [] \<Rightarrow> (s\<lparr>clients := cs, new_clients := ns\<rparr>, os)
             | new_fd # rest \<Rightarrow>
                 (if new_fd = - 1 then s\<lparr>clients := cs, new_clients := ns\<rparr>
                  else s\<lparr>clients := cs @ [new_fd], new_clients := ns @ [new_fd]\<rparr>,
                  os\<lparr>backlog := (backlog os)(sockfd s := rest)\<rparr>))"
proof -
  let ?room = "length (clients s) + length (new_clients s) \<noteq> unat (max_clients s)"
  let ?dc = "\<exists>x\<in>set (clients s). dead os x"
  let ?dn = "\<exists>x\<in>set (new_clients s). dead os x"
  from reclaim_exact [of s os] obtain cs ns where R:
    "if ?room then cs = clients s \<and> ns = new_clients s \<and> reclaim os s = (s, False)
     else if ?dc
      then ns = new_clients s \<and> (\<exists>d\<in>set (clients s). dead os d \<and> mset cs = mset (clients s) - {#d#})
           \<and> reclaim os s = (s\<lparr>clients := cs\<rparr>, False)
      else if ?dn
      then cs = clients s \<and> (\<exists>d\<in>set (new_clients s). dead os d \<and> ns = remove1 d (new_clients s))
           \<and> reclaim os s = (s\<lparr>new_clients := ns\<rparr>, False)
      else cs = clients s \<and> ns = new_clients s \<and> reclaim os s = (s, True)"
    by blast
  have same: "cs = clients s \<Longrightarrow> ns = new_clients s \<Longrightarrow> s\<lparr>clients := cs, new_clients := ns\<rparr> = s"
    by simp
  have P: "if ?room then cs = clients s \<and> ns = new_clients s
      else if ?dc
      then ns = new_clients s \<and> (\<exists>d\<in>set (clients s). dead os d \<and> mset cs = mset (clients s) - {#d#})
      else if ?dn
      then cs = clients s \<and> (\<exists>d\<in>set (new_clients s). dead os d \<and> ns = remove1 d (new_clients s))
      else cs = clients s \<and> ns = new_clients s"
    using R by (simp split: if_splits)
  have A: "EthernetServer_accept os s =
       (if length (clients s) + length (new_clients s) = unat (max_clients s)
           \<and> \<not> ?dc \<and> \<not> ?dn
        then (s, os)
        else case backlog os (sockfd s) of
               [] \<Rightarrow> (s\<lparr>clients := cs, new_clients := ns\<rparr>, os)
             | new_fd # rest \<Rightarrow>
                 (if new_fd = - 1 then s\<lparr>clients := cs, new_clients := ns\<rparr>
                  else s\<lparr>clients := cs @ [new_fd], new_clients := ns @ [new_fd]\<rparr>,
                  os\<lparr>backlog := (backlog os)(sockfd s := rest)\<rparr>))"
  proof (cases ?room)
    case True
    with R have r: "reclaim os s = (s, False)" and e: "cs = clients s" "ns = new_clients s"
      by simp_all
    show ?thesis
      using True accept_of_reclaim [OF r] e
      by (cases "backlog os (sockfd s)") simp_all
  next
    case nr: False
    show ?thesis
    proof (cases ?dc)
      case True
      with R nr have r: "reclaim os s = (s\<lparr>clients := cs\<rparr>, False)" and e: "ns = new_clients s"
        by simp_all
      show ?thesis
        using True nr accept_of_reclaim [OF r] e
        by (cases "backlog os (sockfd s)") simp_all
    next
      case ndc: False
      show ?thesis
      proof (cases ?dn)
        case True
        with R nr ndc have r: "reclaim os s = (s\<lparr>new_clients := ns\<rparr>, False)"
          and e: "cs = clients s"
          by simp_all
        show ?thesis
          using True nr ndc accept_of_reclaim [OF r] e
          by (cases "backlog os (sockfd s)") simp_all
      next
        case False
        with R nr ndc have r: "reclaim os s = (s, True)" by simp
        show ?thesis
          using False nr ndc accept_of_reclaim [OF r] by simp
      qed
    qed
  qed
  show ?thesis by (intro exI [of _ cs] exI [of _ ns] conjI) (rule P, rule A)
qed

lemma hasClient_room:
  assumes "length (clients s) + length (new_clients s) \<noteq> unat (max_clients s)"
    and "backlog os (sockfd s) = new_fd # rest" and "new_fd \<noteq> - 1"
  shows "hasClient os s =
     (True, s\<lparr>clients := clients s @ [new_fd], new_clients := new_clients s @ [new_fd]\<rparr>,
      os\<lparr>backlog := (backlog os)(sockfd s := rest)\<rparr>)"
proof -
  have r: "reclaim os s = (s, False)" using assms(1) by (intro reclaim_below_capacity) simp
  show ?thesis using accept_of_reclaim [OF r] assms(2,3) by (simp add: hasClient_def)
qed

lemma run_snoc:
  assumes "run (tr @ [(c, os)]) s0 = Some (rs :: 'w::len word retval list, s)"
  shows "\<exists>rs1 s1 r os1. run tr s0 = Some (rs1 :: 'w word retval list, s1)
           \<and> step os c s1 = Some (r :: 'w word retval, s, os1)"
  using assms
proof (induction tr arbitrary: s0 rs)
  case Nil
  then show ?case by (auto split: option.splits)
next
  case (Cons a tr)
  obtain c' os' where a: "a = (c', os')" by (cases a)
  from Cons.prems a obtain r' :: "'w word retval" and s' os1' and rs' :: "'w word retval list"
    where st: "step os' c' s0 = Some (r', s', os1')"
      and rn: "run (tr @ [(c, os)]) s' = Some (rs', s)"
    by (auto split: option.splits)
  from Cons.IH [OF rn] obtain rs1 :: "'w word retval list" and s1 and r :: "'w word retval" and os1
    where "run tr s' = Some (rs1, s1)" "step os c s1 = Some (r, s, os1)"
    by blast
  with st a show ?case by auto
qed

text \<open>Bounds on one call of \<^verbatim>\<open>hasClient\<close>.\<close>

lemma hasClient_bounds:
  "\<exists>s' os' acc.
      EthernetServer_accept os s = (s', os') \<and> hasClient os s = (new_clients s' \<noteq> [], s', os')
    \<and> length acc \<le> 1 \<and> backlog os (sockfd s) = acc @ backlog os' (sockfd s)
    \<and> mset (clients s') \<subseteq># mset (clients s) + mset acc
    \<and> mset (new_clients s') \<subseteq># mset (new_clients s) + mset acc
    \<and> (clients s = [] \<and> new_clients s = [] \<and> backlog os (sockfd s) = []
         \<longrightarrow> hasClient os s = (False, s, os))"
proof -
  from accept_outcome [of s os] obtain cs ns where
    cs: "mset cs \<subseteq># mset (clients s)" and ns: "subseq ns (new_clients s)"
    and out: "EthernetServer_accept os s = (s\<lparr>clients := cs, new_clients := ns\<rparr>, os)
      \<or> (\<exists>rest. backlog os (sockfd s) = (- 1) # rest
            \<and> EthernetServer_accept os s =
                (s\<lparr>clients := cs, new_clients := ns\<rparr>,
                 os\<lparr>backlog := (backlog os)(sockfd s := rest)\<rparr>))
      \<or> (\<exists>new_fd rest. backlog os (sockfd s) = new_fd # rest \<and> new_fd \<noteq> - 1
            \<and> EthernetServer_accept os s =
                (s\<lparr>clients := cs @ [new_fd], new_clients := ns @ [new_fd]\<rparr>,
                 os\<lparr>backlog := (backlog os)(sockfd s := rest)\<rparr>))"
    by blast
  have ns': "mset ns \<subseteq># mset (new_clients s)" using ns by (rule subseq_mset_le)
  have quiet: "clients s = [] \<and> new_clients s = [] \<and> backlog os (sockfd s) = []
         \<longrightarrow> hasClient os s = (False, s, os)"
  proof
    assume e: "clients s = [] \<and> new_clients s = [] \<and> backlog os (sockfd s) = []"
    then have "cs = []" "ns = []" using cs ns by simp_all
    moreover have "s\<lparr>clients := [], new_clients := []\<rparr> = s" using e by simp
    ultimately have "EthernetServer_accept os s = (s, os)" using out e by auto
    then show "hasClient os s = (False, s, os)" using e by (simp add: hasClient_def)
  qed
  from out consider
    (none) "EthernetServer_accept os s = (s\<lparr>clients := cs, new_clients := ns\<rparr>, os)"
    | (failed) rest where "backlog os (sockfd s) = (- 1) # rest"
        "EthernetServer_accept os s =
                (s\<lparr>clients := cs, new_clients := ns\<rparr>,
                 os\<lparr>backlog := (backlog os)(sockfd s := rest)\<rparr>)"
    | (accepted) new_fd rest where "backlog os (sockfd s) = new_fd # rest"
        "EthernetServer_accept os s =
                (s\<lparr>clients := cs @ [new_fd], new_clients := ns @ [new_fd]\<rparr>,
                 os\<lparr>backlog := (backlog os)(sockfd s := rest)\<rparr>)"
    by blast
  then have "\<exists>s' os' acc.
      EthernetServer_accept os s = (s', os') \<and> hasClient os s = (new_clients s' \<noteq> [], s', os')
    \<and> length acc \<le> 1 \<and> backlog os (sockfd s) = acc @ backlog os' (sockfd s)
    \<and> mset (clients s') \<subseteq># mset (clients s) + mset acc
    \<and> mset (new_clients s') \<subseteq># mset (new_clients s) + mset acc"
  proof cases
    case none
    with cs ns' show ?thesis
      by (intro exI [of _ "s\<lparr>clients := cs, new_clients := ns\<rparr>"] exI [of _ os] exI [of _ "[]"])
         (simp add: hasClient_def)
  next
    case failed
    have "mset cs \<subseteq># add_mset (- 1) (mset (clients s))"
      "mset ns \<subseteq># add_mset (- 1) (mset (new_clients s))"
      using cs ns' by (simp_all add: mset_le_add_mset)
    with failed show ?thesis
      by (intro exI [of _ "s\<lparr>clients := cs, new_clients := ns\<rparr>"]
          exI [of _ "os\<lparr>backlog := (backlog os)(sockfd s := rest)\<rparr>"] exI [of _ "[- 1]"])
         (simp add: hasClient_def)
  next
    case accepted
    with cs ns' show ?thesis
      by (intro exI [of _ "s\<lparr>clients := cs @ [new_fd], new_clients := ns @ [new_fd]\<rparr>"]
          exI [of _ "os\<lparr>backlog := (backlog os)(sockfd s := rest)\<rparr>"] exI [of _ "[new_fd]"])
         (simp add: hasClient_def)
  qed
  with quiet show ?thesis by blast
qed

subsection \<open>The claims\<close>

text \<open>
  Claim C1. The specification bounds the sum of the sizes of \<^verbatim>\<open>clients\<close> and \<^verbatim>\<open>new_clients\<close>
  by \<^verbatim>\<open>max_clients\<close> in every reachable state. \<^verbatim>\<open>_accept\<close> tests the sum for equality with the
  capacity and then pushes the new descriptor on both containers, so the sum grows by two
  and steps over the capacity: with capacity 1 the first accepted connection gives a sum of
  2, and with capacity 2 one accept, one \<^verbatim>\<open>available()\<close> and a second accept give a sum of 3.
\<close>

theorem capacity_exceeded:
  "run [(HasClient, example_os)] (EthernetServer 5003 1 3) =
     Some ([Ret_bool True :: 32 word retval], example_server [7] [7] 1)
   \<and> unat (max_clients (example_server [7] [7] 1))
       < length (clients (example_server [7] [7] 1)) + length (new_clients (example_server [7] [7] 1))
   \<and> run [(HasClient, example_os), (Available, example_os),
           (HasClient, example_os\<lparr>backlog := (\<lambda>x. [8])\<rparr>)] (EthernetServer 5003 2 3) =
     Some ([Ret_bool True :: 32 word retval, Ret_client (EthernetClient_sock 7), Ret_bool True],
           example_server [7, 8] [8] 2)
   \<and> unat (max_clients (example_server [7, 8] [8] 2))
       < length (clients (example_server [7, 8] [8] 2)) + length (new_clients (example_server [7, 8] [8] 2))"
  by (simp add: run_defs example_defs)

text \<open>
  Claim C2. The specification has a broadcast keep a handle that is not connected but still
  has unread input, skip it, and return. The loop of \<^verbatim>\<open>write(buffer, size)\<close> does not advance
  past such a handle: whenever the Active set holds one, the call does not return.
\<close>

theorem write_buffer_half_closed_diverges:
  assumes "\<exists>x\<in>set (clients s). \<not> sock_connected os x \<and> sock_available os x \<noteq> 0"
  shows "(write_buffer buffer os s :: ('w::len word \<times> server \<times> os) option) = None"
proof (rule ccontr)
  assume "(write_buffer buffer os s :: ('w word \<times> server \<times> os) option) \<noteq> None"
  then obtain y :: "'w word \<times> server \<times> os" where "write_buffer buffer os s = Some y" by auto
  then have "\<not> half_closed_from os s 0"
    unfolding write_buffer_def by (rule write_loop_returns_no_half_closed)
  moreover from assms obtain x where "x \<in> set (clients s)" "half_closed os x"
    by (auto simp add: half_closed_def)
  then obtain k where "k < length (clients s)" "half_closed os (clients s ! k)"
    by (metis in_set_conv_nth)
  then have "half_closed_from os s 0"
    unfolding half_closed_from_def by blast
  ultimately show False by simp
qed

theorem write_buffer_half_closed_example:
  "(write_buffer [0x58] example_os (example_server [4, 5] [] 2)
      :: (32 word \<times> server \<times> os) option) = None"
proof -
  have h: "\<exists>x\<in>set (clients (example_server [4, 5] [] 2)).
             \<not> sock_connected example_os x \<and> sock_available example_os x \<noteq> 0"
    by (simp add: example_defs)
  show ?thesis by (rule write_buffer_half_closed_diverges [OF h])
qed

text \<open>
  Claim C3. The specification has every handle that leaves \<^verbatim>\<open>clients\<close> closed exactly once,
  the reclamation scan included. \<^verbatim>\<open>_accept\<close> never closes a descriptor: the log of closed
  descriptors is the same after every call, also after one whose scan removed the dead handle
  6 from \<^verbatim>\<open>clients\<close>.
\<close>

theorem reclaim_scan_does_not_close:
  "closed (snd (EthernetServer_accept os s)) = closed os
   \<and> EthernetServer_accept example_os (example_server [4, 6] [] 2) =
       (example_server [4, 7] [7] 2, example_os\<lparr>backlog := (\<lambda>x. [])\<rparr>)
   \<and> 6 \<in> set (clients (example_server [4, 6] [] 2))
   \<and> 6 \<notin> set (clients (example_server [4, 7] [7] 2))
   \<and> dead example_os 6
   \<and> closed (example_os\<lparr>backlog := (\<lambda>x. [])\<rparr>) = []"
proof -
  from accept_outcome [of s os] have "closed (snd (EthernetServer_accept os s)) = closed os"
    by auto
  moreover have "EthernetServer_accept example_os (example_server [4, 6] [] 2) =
       (example_server [4, 7] [7] 2, example_os\<lparr>backlog := (\<lambda>x. [])\<rparr>)"
    by (simp add: run_defs example_defs fun_eq_iff)
  ultimately show ?thesis by (simp add: example_defs dead_def)
qed

text \<open>
  Claim C4. When every handle in \<^verbatim>\<open>clients\<close> is either connected or dead, one call of
  \<^verbatim>\<open>write(buffer, size)\<close> returns; afterwards \<^verbatim>\<open>clients\<close> holds exactly the connected handles
  (as a multiset: removal by swapping changes the order), exactly the dead handles were
  closed, and the result is the sum of what the writes to the connected handles returned,
  computed in \<^verbatim>\<open>size_t\<close>; that is the sum of the byte counts whenever it fits in \<^verbatim>\<open>size_t\<close>.
\<close>

theorem write_buffer_live_and_dead:
  assumes "\<forall>x\<in>set (clients s). sock_connected os x \<or> dead os x"
  shows "\<exists>kept cl.
           (write_buffer buffer os s :: ('w::len word \<times> server \<times> os) option) =
             Some (sum_list (map (\<lambda>x. client_write os (EthernetClient_sock x) buffer)
                                 (filter (sock_connected os) (clients s))),
                   s\<lparr>clients := kept\<rparr>, os\<lparr>closed := closed os @ cl\<rparr>)
         \<and> mset kept = mset (filter (sock_connected os) (clients s))
         \<and> mset cl = mset (filter (dead os) (clients s))
         \<and> (sum_list (map (\<lambda>x. sock_write os x buffer) (filter (sock_connected os) (clients s)))
               < 2 ^ LENGTH('w) \<longrightarrow>
             unat (sum_list (map (\<lambda>x. client_write os (EthernetClient_sock x) buffer)
                                 (filter (sock_connected os) (clients s))) :: 'w word)
               = sum_list (map (\<lambda>x. sock_write os x buffer) (filter (sock_connected os) (clients s))))"
proof -
  let ?live = "filter (sock_connected os) (clients s)"
  let ?total = "sum_list (map (\<lambda>x. sock_write os x buffer) ?live)"
  have cs: "clients s = [] @ clients s" by simp
  have hyp: "\<forall>x\<in>set (clients s). sock_connected os x \<or> sock_available os x = 0"
    using assms by (auto simp add: dead_def)
  have "\<exists>suf' cl. write_loop buffer os s (0 :: 'w word) (length ([] :: fd list)) =
           Some (0 + of_nat ?total, s\<lparr>clients := [] @ suf'\<rparr>, os\<lparr>closed := closed os @ cl\<rparr>)
         \<and> mset suf' = mset ?live
         \<and> mset cl = mset (filter (\<lambda>x. \<not> sock_connected os x) (clients s))"
    by (rule write_loop_live_dead [OF cs hyp])
  then obtain kept cl where
    run: "write_loop buffer os s (0 :: 'w word) 0 =
            Some (of_nat ?total, s\<lparr>clients := kept\<rparr>, os\<lparr>closed := closed os @ cl\<rparr>)"
    and kept: "mset kept = mset ?live"
    and cl: "mset cl = mset (filter (\<lambda>x. \<not> sock_connected os x) (clients s))"
    by auto
  have "filter (\<lambda>x. \<not> sock_connected os x) (clients s) = filter (dead os) (clients s)"
    using assms by (intro filter_cong) (auto simp add: dead_def)
  with cl have cl': "mset cl = mset (filter (dead os) (clients s))" by simp
  have total: "(of_nat ?total :: 'w word) =
      sum_list (map (\<lambda>x. client_write os (EthernetClient_sock x) buffer) ?live)"
    by (simp only: of_nat_sum_list_word client_write_sock)
  have "?total < 2 ^ LENGTH('w) \<longrightarrow> unat (of_nat ?total :: 'w word) = ?total"
    by (simp add: unsigned_of_nat take_bit_nat_eq_self)
  with run kept cl' show ?thesis
    unfolding write_buffer_def total by blast
qed

theorem write_buffer_live_and_dead_example:
  "\<exists>kept cl.
     (write_buffer [0x58, 0x59] example_os (example_server [6, 4, 8, 4, 9] [] 8)
        :: (32 word \<times> server \<times> os) option) =
       Some (4, example_server kept [] 8, example_os\<lparr>closed := cl\<rparr>)
     \<and> mset kept = mset [4, 4] \<and> mset cl = mset [6, 8, 9]"
proof -
  have h: "\<forall>x\<in>set (clients (example_server [6, 4, 8, 4, 9] [] 8)).
             sock_connected example_os x \<or> dead example_os x"
    by (simp add: example_defs dead_def)
  show ?thesis
    using write_buffer_live_and_dead [OF h, of "[0x58, 0x59]", where ?'w = 32]
    by (simp add: example_defs dead_def)
qed

text \<open>
  Claim C5. At capacity, with every tracked handle connected or carrying unread input, an
  accept attempt changes nothing: the server object and the operating system (in particular
  the backlog) are as before, and \<^verbatim>\<open>hasClient\<close> reports whether the queue was non-empty.
\<close>

theorem accept_at_capacity_all_live:
  assumes "length (clients s) + length (new_clients s) = unat (max_clients s)"
    and "\<forall>x\<in>set (clients s) \<union> set (new_clients s). sock_connected os x \<or> sock_available os x \<noteq> 0"
  shows "EthernetServer_accept os s = (s, os) \<and> hasClient os s = (new_clients s \<noteq> [], s, os)"
proof -
  have "\<forall>x\<in>set (clients s) \<union> set (new_clients s). \<not> dead os x"
    using assms(2) by (auto simp add: dead_def)
  then have "reclaim os s = (s, True)"
    using assms(1) by (intro reclaim_all_live) simp_all
  then show ?thesis by (simp add: EthernetServer_accept_def hasClient_def)
qed

theorem accept_at_capacity_all_live_witness:
  "EthernetServer_accept example_os (example_server [4, 5] [] 2) =
     (example_server [4, 5] [] 2, example_os)
   \<and> hasClient example_os (example_server [4, 5] [] 2) =
     (False, example_server [4, 5] [] 2, example_os)"
proof -
  have c: "length (clients (example_server [4, 5] [] 2))
             + length (new_clients (example_server [4, 5] [] 2))
           = unat (max_clients (example_server [4, 5] [] 2))"
    by (simp add: example_defs)
  have l: "\<forall>x\<in>set (clients (example_server [4, 5] [] 2)) \<union> set (new_clients (example_server [4, 5] [] 2)).
             sock_connected example_os x \<or> sock_available example_os x \<noteq> 0"
    by (simp add: example_defs)
  show ?thesis using accept_at_capacity_all_live [OF c l] by (simp add: example_defs)
qed

text \<open>
  Claim C6. At capacity, with a dead handle among the tracked ones and a connection waiting,
  one accept attempt removes exactly one dead handle \<open>d\<close> (from \<^verbatim>\<open>clients\<close> if it holds a dead
  handle, in which case \<^verbatim>\<open>new_clients\<close> is not searched; otherwise the first dead one of
  \<^verbatim>\<open>new_clients\<close>) and appends the accepted descriptor to both containers; the connection
  leaves the backlog.
\<close>

theorem accept_at_capacity_reclaims_one:
  assumes cap: "length (clients s) + length (new_clients s) = unat (max_clients s)"
    and some_dead: "\<exists>x\<in>set (clients s) \<union> set (new_clients s). dead os x"
    and inbound: "backlog os (sockfd s) = new_fd # rest" "new_fd \<noteq> - 1"
  shows "\<exists>d cs ns. dead os d
      \<and> EthernetServer_accept os s =
          (s\<lparr>clients := cs @ [new_fd], new_clients := ns @ [new_fd]\<rparr>,
           os\<lparr>backlog := (backlog os)(sockfd s := rest)\<rparr>)
      \<and> (if \<exists>x\<in>set (clients s). dead os x
          then d \<in> set (clients s) \<and> mset cs = mset (clients s) - {#d#} \<and> ns = new_clients s
          else d \<in> set (new_clients s) \<and> cs = clients s \<and> ns = remove1 d (new_clients s))"
proof -
  have cap': "length (new_clients s) + length (clients s) = unat (max_clients s)"
    using cap by simp
  show ?thesis
  proof (cases "dropWhile (\<lambda>x. \<not> dead os x) (clients s)")
    case (Cons d post)
    let ?cs = "takeWhile (\<lambda>x. \<not> dead os x) (clients s) @ move_last post"
    note d = dropWhile_dead_Cons [OF Cons]
    have r: "reclaim os s = (s\<lparr>clients := ?cs\<rparr>, False)"
      by (rule reclaim_dead_client [OF cap' Cons])
    have acc: "EthernetServer_accept os s =
          (s\<lparr>clients := ?cs @ [new_fd], new_clients := new_clients s @ [new_fd]\<rparr>,
           os\<lparr>backlog := (backlog os)(sockfd s := rest)\<rparr>)"
      using inbound by (simp add: EthernetServer_accept_def r os_accept_def)
    have m: "mset ?cs = mset (clients s) - {#d#}"
      by (rule mset_swap_removed) (rule d(2))
    have ex: "\<exists>x\<in>set (clients s). dead os x" using d(1,3) by blast
    show ?thesis
      using d(1,3) acc m ex
      by (intro exI [of _ d] exI [of _ ?cs] exI [of _ "new_clients s"]) simp
  next
    case Nil
    then have none: "\<not> (\<exists>x\<in>set (clients s). dead os x)"
      by (simp add: dropWhile_live_Nil)
    with some_dead have "\<exists>x\<in>set (new_clients s). dead os x" by blast
    then have "dropWhile (\<lambda>x. \<not> dead os x) (new_clients s) \<noteq> []"
      by (simp add: dropWhile_live_Nil)
    then obtain d post where Cons: "dropWhile (\<lambda>x. \<not> dead os x) (new_clients s) = d # post"
      by (cases "dropWhile (\<lambda>x. \<not> dead os x) (new_clients s)") auto
    let ?ns = "takeWhile (\<lambda>x. \<not> dead os x) (new_clients s) @ post"
    note d = dropWhile_dead_Cons [OF Cons]
    have r: "reclaim os s = (s\<lparr>new_clients := ?ns\<rparr>, False)"
      by (rule reclaim_dead_new_client [OF cap' Nil Cons])
    have acc: "EthernetServer_accept os s =
          (s\<lparr>clients := clients s @ [new_fd], new_clients := ?ns @ [new_fd]\<rparr>,
           os\<lparr>backlog := (backlog os)(sockfd s := rest)\<rparr>)"
      using inbound by (simp add: EthernetServer_accept_def r os_accept_def)
    have "remove1 d (takeWhile (\<lambda>x. \<not> dead os x) (new_clients s) @ d # post) = ?ns"
      using d(4) by (simp add: remove1_append)
    then have rm: "remove1 d (new_clients s) = ?ns" using d(2) by simp
    show ?thesis
      using d(1,3) acc rm none
      by (intro exI [of _ d] exI [of _ "clients s"] exI [of _ ?ns]) simp
  qed
qed

theorem accept_at_capacity_reclaims_one_witness:
  "(\<exists>d cs. dead example_os d \<and> d \<in> set [4, 6] \<and> mset cs = mset [4, 6] - {#d#}
     \<and> EthernetServer_accept example_os (example_server [4, 6] [] 2) =
         (example_server (cs @ [7]) [7] 2, example_os\<lparr>backlog := (backlog example_os)(3 := [])\<rparr>))
   \<and> (\<exists>d. dead example_os d \<and> d \<in> set [6]
     \<and> EthernetServer_accept example_os (example_server [4] [6] 2) =
         (example_server [4, 7] (remove1 d [6] @ [7]) 2,
          example_os\<lparr>backlog := (backlog example_os)(3 := [])\<rparr>))"
proof -
  let ?s = "example_server [4, 6] [] 2"
  have cap: "length (clients ?s) + length (new_clients ?s) = unat (max_clients ?s)"
    by (simp add: example_defs)
  have some_dead: "\<exists>x\<in>set (clients ?s) \<union> set (new_clients ?s). dead example_os x"
    by (simp add: example_defs dead_def)
  have inbound: "backlog example_os (sockfd ?s) = 7 # []" "(7 :: int) \<noteq> - 1"
    by (simp_all add: example_defs)
  have in_clients: "\<exists>x\<in>set (clients ?s). dead example_os x"
    by (simp add: example_defs dead_def)
  from accept_at_capacity_reclaims_one [OF cap some_dead inbound]
  obtain d cs ns where "dead example_os d"
    and "EthernetServer_accept example_os ?s =
          (?s\<lparr>clients := cs @ [7], new_clients := ns @ [7]\<rparr>,
           example_os\<lparr>backlog := (backlog example_os)(sockfd ?s := [])\<rparr>)"
    and "d \<in> set (clients ?s) \<and> mset cs = mset (clients ?s) - {#d#} \<and> ns = new_clients ?s"
    using in_clients by auto
  then have active: "\<exists>d cs. dead example_os d \<and> d \<in> set [4, 6] \<and> mset cs = mset [4, 6] - {#d#}
     \<and> EthernetServer_accept example_os (example_server [4, 6] [] 2) =
         (example_server (cs @ [7]) [7] 2, example_os\<lparr>backlog := (backlog example_os)(3 := [])\<rparr>)"
    by (intro exI [of _ d] exI [of _ cs]) (simp add: example_server_def EthernetServer_def)
  let ?t = "example_server [4] [6] 2"
  have cap': "length (clients ?t) + length (new_clients ?t) = unat (max_clients ?t)"
    by (simp add: example_defs)
  have some_dead': "\<exists>x\<in>set (clients ?t) \<union> set (new_clients ?t). dead example_os x"
    by (simp add: example_defs dead_def)
  have inbound': "backlog example_os (sockfd ?t) = 7 # []"
    by (simp add: example_defs)
  have not_in_clients: "\<not> (\<exists>x\<in>set (clients ?t). dead example_os x)"
    by (simp add: example_defs dead_def)
  from accept_at_capacity_reclaims_one [OF cap' some_dead' inbound' inbound(2)]
  obtain d' cs' ns' where "dead example_os d'"
    and "EthernetServer_accept example_os ?t =
          (?t\<lparr>clients := cs' @ [7], new_clients := ns' @ [7]\<rparr>,
           example_os\<lparr>backlog := (backlog example_os)(sockfd ?t := [])\<rparr>)"
    and "d' \<in> set (new_clients ?t) \<and> cs' = clients ?t \<and> ns' = remove1 d' (new_clients ?t)"
    using not_in_clients by auto
  then have pending: "\<exists>d. dead example_os d \<and> d \<in> set [6]
     \<and> EthernetServer_accept example_os (example_server [4] [6] 2) =
         (example_server [4, 7] (remove1 d [6] @ [7]) 2,
          example_os\<lparr>backlog := (backlog example_os)(3 := [])\<rparr>)"
    by (intro exI [of _ d']) (simp add: example_server_def EthernetServer_def)
  from active pending show ?thesis by (rule conjI)
qed

text \<open>
  Claim C7. \<^verbatim>\<open>hasClient\<close> is one call of \<^verbatim>\<open>_accept\<close> followed by the test whether \<^verbatim>\<open>new_clients\<close>
  is non-empty. At most one connection leaves the backlog, and each container gains at most
  that one handle; with both containers empty and nothing waiting, it returns false and
  changes nothing. The attempt is pinned in full. At capacity with no dead handle nothing
  changes and \<^verbatim>\<open>accept()\<close> is not called. In every other case the reclamation leaves the
  containers \<open>cs\<close> and \<open>ns\<close> (the old ones below capacity, otherwise less one dead handle of
  \<^verbatim>\<open>clients\<close> or, if it has none, the first dead one of \<^verbatim>\<open>new_clients\<close>) and \<^verbatim>\<open>accept()\<close> is called
  once: nothing waiting leaves \<open>cs\<close> and \<open>ns\<close>, a failed accept only takes the connection
  off the backlog, and a descriptor is appended to both. In particular a connection that
  waits while there is room is accepted and the call returns true.
\<close>

theorem hasClient_single_attempt:
  "(\<exists>s' os' acc.
      EthernetServer_accept os s = (s', os') \<and> hasClient os s = (new_clients s' \<noteq> [], s', os')
    \<and> length acc \<le> 1 \<and> backlog os (sockfd s) = acc @ backlog os' (sockfd s)
    \<and> mset (clients s') \<subseteq># mset (clients s) + mset acc
    \<and> mset (new_clients s') \<subseteq># mset (new_clients s) + mset acc
    \<and> (clients s = [] \<and> new_clients s = [] \<and> backlog os (sockfd s) = []
         \<longrightarrow> hasClient os s = (False, s, os)))
   \<and> (\<exists>cs ns.
     (if length (clients s) + length (new_clients s) \<noteq> unat (max_clients s)
      then cs = clients s \<and> ns = new_clients s
      else if \<exists>x\<in>set (clients s). dead os x
      then ns = new_clients s \<and> (\<exists>d\<in>set (clients s). dead os d \<and> mset cs = mset (clients s) - {#d#})
      else if \<exists>x\<in>set (new_clients s). dead os x
      then cs = clients s \<and> (\<exists>d\<in>set (new_clients s). dead os d \<and> ns = remove1 d (new_clients s))
      else cs = clients s \<and> ns = new_clients s)
     \<and> EthernetServer_accept os s =
       (if length (clients s) + length (new_clients s) = unat (max_clients s)
           \<and> \<not> (\<exists>x\<in>set (clients s). dead os x) \<and> \<not> (\<exists>x\<in>set (new_clients s). dead os x)
        then (s, os)
        else case backlog os (sockfd s) of
               [] \<Rightarrow> (s\<lparr>clients := cs, new_clients := ns\<rparr>, os)
             | new_fd # rest \<Rightarrow>
                 (if new_fd = - 1 then s\<lparr>clients := cs, new_clients := ns\<rparr>
                  else s\<lparr>clients := cs @ [new_fd], new_clients := ns @ [new_fd]\<rparr>,
                  os\<lparr>backlog := (backlog os)(sockfd s := rest)\<rparr>)))
   \<and> (\<forall>new_fd rest.
         length (clients s) + length (new_clients s) \<noteq> unat (max_clients s)
         \<and> backlog os (sockfd s) = new_fd # rest \<and> new_fd \<noteq> - 1
         \<longrightarrow> hasClient os s =
               (True, s\<lparr>clients := clients s @ [new_fd], new_clients := new_clients s @ [new_fd]\<rparr>,
                os\<lparr>backlog := (backlog os)(sockfd s := rest)\<rparr>))"
proof (intro conjI)
  show "\<exists>s' os' acc.
      EthernetServer_accept os s = (s', os') \<and> hasClient os s = (new_clients s' \<noteq> [], s', os')
    \<and> length acc \<le> 1 \<and> backlog os (sockfd s) = acc @ backlog os' (sockfd s)
    \<and> mset (clients s') \<subseteq># mset (clients s) + mset acc
    \<and> mset (new_clients s') \<subseteq># mset (new_clients s) + mset acc
    \<and> (clients s = [] \<and> new_clients s = [] \<and> backlog os (sockfd s) = []
         \<longrightarrow> hasClient os s = (False, s, os))"
    by (rule hasClient_bounds)
  show "\<exists>cs ns.
     (if length (clients s) + length (new_clients s) \<noteq> unat (max_clients s)
      then cs = clients s \<and> ns = new_clients s
      else if \<exists>x\<in>set (clients s). dead os x
      then ns = new_clients s \<and> (\<exists>d\<in>set (clients s). dead os d \<and> mset cs = mset (clients s) - {#d#})
      else if \<exists>x\<in>set (new_clients s). dead os x
      then cs = clients s \<and> (\<exists>d\<in>set (new_clients s). dead os d \<and> ns = remove1 d (new_clients s))
      else cs = clients s \<and> ns = new_clients s)
     \<and> EthernetServer_accept os s =
       (if length (clients s) + length (new_clients s) = unat (max_clients s)
           \<and> \<not> (\<exists>x\<in>set (clients s). dead os x) \<and> \<not> (\<exists>x\<in>set (new_clients s). dead os x)
        then (s, os)
        else case backlog os (sockfd s) of
               [] \<Rightarrow> (s\<lparr>clients := cs, new_clients := ns\<rparr>, os)
             | new_fd # rest \<Rightarrow>
                 (if new_fd = - 1 then s\<lparr>clients := cs, new_clients := ns\<rparr>
                  else s\<lparr>clients := cs @ [new_fd], new_clients := ns @ [new_fd]\<rparr>,
                  os\<lparr>backlog := (backlog os)(sockfd s := rest)\<rparr>))"
    by (rule accept_exact)
  show "\<forall>new_fd rest.
         length (clients s) + length (new_clients s) \<noteq> unat (max_clients s)
         \<and> backlog os (sockfd s) = new_fd # rest \<and> new_fd \<noteq> - 1
         \<longrightarrow> hasClient os s =
               (True, s\<lparr>clients := clients s @ [new_fd], new_clients := new_clients s @ [new_fd]\<rparr>,
                os\<lparr>backlog := (backlog os)(sockfd s := rest)\<rparr>)"
    by (intro allI impI hasClient_room) simp_all
qed

theorem hasClient_single_attempt_witness:
  "hasClient quiet_os (EthernetServer 5003 1 3) = (False, EthernetServer 5003 1 3, quiet_os)
   \<and> hasClient example_os (EthernetServer 5003 2 3) =
       (True, example_server [7] [7] 2, example_os\<lparr>backlog := (backlog example_os)(3 := [])\<rparr>)"
proof -
  have q: "clients (EthernetServer 5003 1 3) = [] \<and> new_clients (EthernetServer 5003 1 3) = []
        \<and> backlog quiet_os (sockfd (EthernetServer 5003 1 3)) = []"
    by (simp add: EthernetServer_def quiet_os_def)
  have quiet: "hasClient quiet_os (EthernetServer 5003 1 3) = (False, EthernetServer 5003 1 3, quiet_os)"
    using q hasClient_single_attempt [of quiet_os "EthernetServer 5003 1 3", THEN conjunct1]
    by blast
  have room: "length (clients (EthernetServer 5003 2 3)) + length (new_clients (EthernetServer 5003 2 3))
        \<noteq> unat (max_clients (EthernetServer 5003 2 3))
      \<and> backlog example_os (sockfd (EthernetServer 5003 2 3)) = 7 # [] \<and> (7 :: int) \<noteq> - 1"
    by (simp add: example_defs)
  have "hasClient example_os (EthernetServer 5003 2 3) =
      (True, (EthernetServer 5003 2 3)\<lparr>clients := clients (EthernetServer 5003 2 3) @ [7],
               new_clients := new_clients (EthernetServer 5003 2 3) @ [7]\<rparr>,
       example_os\<lparr>backlog := (backlog example_os)(sockfd (EthernetServer 5003 2 3) := [])\<rparr>)"
    using room
      hasClient_single_attempt [of example_os "EthernetServer 5003 2 3",
        THEN conjunct2, THEN conjunct2, rule_format, of 7 "[]"]
    by blast
  then have accepted: "hasClient example_os (EthernetServer 5003 2 3) =
       (True, example_server [7] [7] 2, example_os\<lparr>backlog := (backlog example_os)(3 := [])\<rparr>)"
    by (simp add: example_server_def EthernetServer_def)
  from quiet accepted show ?thesis by (rule conjI)
qed



text \<open>
  Claim C9. The specification has \<^verbatim>\<open>new_clients\<close> contained in \<^verbatim>\<open>clients\<close> in every reachable
  state. A broadcast (and the first reclamation scan of \<^verbatim>\<open>_accept\<close>) removes a dead handle
  from \<^verbatim>\<open>clients\<close> and leaves it in \<^verbatim>\<open>new_clients\<close>; the run below reaches such a state.
\<close>

theorem pending_subset_active_counterexample:
  "run [(HasClient, example_os), (Write_buffer [0x58], example_os)] (EthernetServer 5003 2 3) =
     Some ([Ret_bool True, Ret_size (0 :: 32 word)], example_server [] [7] 2)
   \<and> \<not> set (new_clients (example_server [] [7] 2)) \<subseteq> set (clients (example_server [] [7] 2))"
  by (simp add: run_defs example_defs)

text \<open>
  Claim C9, as amended. In every state reached by a run from the constructor's state, a handle
  \<open>x\<close> in \<^verbatim>\<open>new_clients\<close> is also in \<^verbatim>\<open>clients\<close>, unless an earlier \<^verbatim>\<open>hasClient\<close> or write call of
  the run evicted it: that call started with \<open>x\<close> in both containers, ran while \<open>x\<close> was dead,
  and ended with \<open>x\<close> no longer in \<^verbatim>\<open>clients\<close>.
\<close>

theorem pending_in_active_unless_evicted_dead:
  assumes "run tr (EthernetServer p m sockfd0) = Some (rs :: 'w::len word retval list, s)"
    and "x \<in> set (new_clients s)"
  shows "x \<in> set (clients s)
     \<or> (\<exists>tr1 c os tr2 rs1 s1 r s2 os2.
           tr = tr1 @ (c, os) # tr2
         \<and> run tr1 (EthernetServer p m sockfd0) = Some (rs1 :: 'w word retval list, s1)
         \<and> step os c s1 = Some (r :: 'w word retval, s2, os2)
         \<and> scans c \<and> dead os x
         \<and> x \<in> set (clients s1) \<and> x \<in> set (new_clients s1) \<and> x \<notin> set (clients s2))"
  using assms
proof (induction tr arbitrary: rs s rule: rev_induct)
  case Nil
  then show ?case by (auto simp add: EthernetServer_def)
next
  case (snoc a tr)
  obtain c os where a: "a = (c, os)" by (cases a)
  from run_snoc [OF snoc.prems(1) [unfolded a]]
  obtain rs1 :: "'w word retval list" and s1 and r :: "'w word retval" and os1
    where rn: "run tr (EthernetServer p m sockfd0) = Some (rs1, s1)"
      and st: "step os c s1 = Some (r, s, os1)"
    by blast
  note sc = step_containers [OF st]
  show ?case
  proof (cases "x \<in> set (clients s)")
    case True
    then show ?thesis by simp
  next
    case False
    with sc snoc.prems(2) have pending: "x \<in> set (new_clients s1)" by blast
    from snoc.IH [OF rn pending] show ?thesis
    proof
      assume active: "x \<in> set (clients s1)"
      with sc False have "scans c \<and> dead os x" by blast
      with rn st active pending False a have
        "tr @ [a] = tr @ (c, os) # []
         \<and> run tr (EthernetServer p m sockfd0) = Some (rs1, s1)
         \<and> step os c s1 = Some (r, s, os1)
         \<and> scans c \<and> dead os x
         \<and> x \<in> set (clients s1) \<and> x \<in> set (new_clients s1) \<and> x \<notin> set (clients s)"
        by simp
      then show ?thesis by blast
    next
      assume "\<exists>tr1 c os tr2 rs1 s1 r s2 os2.
           tr = tr1 @ (c, os) # tr2
         \<and> run tr1 (EthernetServer p m sockfd0) = Some (rs1 :: 'w word retval list, s1)
         \<and> step os c s1 = Some (r :: 'w word retval, s2, os2)
         \<and> scans c \<and> dead os x
         \<and> x \<in> set (clients s1) \<and> x \<in> set (new_clients s1) \<and> x \<notin> set (clients s2)"
      then obtain tr1 c' os' tr2 and rs1' :: "'w word retval list" and s1'
          and r' :: "'w word retval" and s2 os2 where
        e: "tr = tr1 @ (c', os') # tr2"
          "run tr1 (EthernetServer p m sockfd0) = Some (rs1', s1')"
          "step os' c' s1' = Some (r', s2, os2)"
          "scans c'" "dead os' x"
          "x \<in> set (clients s1')" "x \<in> set (new_clients s1')" "x \<notin> set (clients s2)"
        by blast
      from e(1) have "tr @ [a] = tr1 @ (c', os') # (tr2 @ [a])" by simp
      with e(2-8) show ?thesis by blast
    qed
  qed
qed

theorem pending_in_active_unless_evicted_dead_witness:
  "7 \<in> set (clients (example_server [] [7] 2))
   \<or> (\<exists>tr1 c os tr2 rs1 s1 r s2 os2.
         [(HasClient, example_os), (Write_buffer [0x58], example_os)] = tr1 @ (c, os) # tr2
       \<and> run tr1 (EthernetServer 5003 2 3) = Some (rs1 :: 32 word retval list, s1)
       \<and> step os c s1 = Some (r :: 32 word retval, s2, os2)
       \<and> scans c \<and> dead os 7
       \<and> 7 \<in> set (clients s1) \<and> 7 \<in> set (new_clients s1) \<and> 7 \<notin> set (clients s2))"
proof -
  have r: "run [(HasClient, example_os), (Write_buffer [0x58], example_os)] (EthernetServer 5003 2 3) =
     Some ([Ret_bool True, Ret_size (0 :: 32 word)], example_server [] [7] 2)"
    by (simp add: run_defs example_defs)
  have x: "7 \<in> set (new_clients (example_server [] [7] 2))"
    by (simp add: example_defs)
  show ?thesis by (rule pending_in_active_unless_evicted_dead [OF r x])
qed

text \<open>
  Claim C10. \<^verbatim>\<open>write(const char *str)\<close> with a null pointer returns 0 and changes neither the
  server nor the operating system.
\<close>

theorem write_str_null: "write_str None os s = Some (0, s, os)"
  by (simp add: write_str_def)

end
